theory Spec2Isabelle
  imports Main "HOL-Library.Sublist" "HOL-Library.Monad_Syntax"
begin

section \<open>Keyword matcher (KSHARP2.0.C, lines 134-315)\<close>

text \<open>
  The keyword DFA of the lexer is a forest of nodes: every node carries a character, the
  flag \<open>isLeaf\<close> ("a keyword ends here") and its array of children, of which the first
  \<open>cSize\<close> entries are used. The model keeps the used entries as a list, so \<open>cSize\<close> is
  the length of \<open>children\<close> and \<open>sSize\<close> the length of the list of roots. Allocation
  failure of \<open>malloc\<close> is not modelled. A C string \<open>symbol\<close> is a \<open>string\<close> and
  \<open>symbol[i]\<close> is \<open>symbol ! i\<close>; every read below is guarded by \<open>index < len\<close>.
  In \<open>dfa_init_chain\<close> the source tests \<open>index == len\<close>; all callers pass
  \<open>index \<le> len\<close>, and the model stops for \<open>index \<ge> len\<close>.
\<close>

definition KEYWORDS :: "string list" where
  "KEYWORDS =
    [''if'', ''else'', ''elseif'', ''for'', ''while'', ''do'',
     ''switch'', ''case'', ''default'', ''break'', ''continue'', ''return'',
     ''print'', ''input'', ''writeln'', ''readln'',
     ''begin'', ''end'', ''then'', ''of'', ''repeat'', ''until'']"

definition DFA_MAX_ROOTS :: nat where "DFA_MAX_ROOTS = 64"
definition DFA_MAX_CHILDREN :: nat where "DFA_MAX_CHILDREN = 31"

datatype DFANode = DFANode (val: char) (isLeaf: bool) (children: "DFANode list")

type_synonym DFA = "DFANode list"

function dfa_init_chain :: "string \<Rightarrow> nat \<Rightarrow> nat \<Rightarrow> DFANode option" where
  "dfa_init_chain symbol index len =
     (if len = 0 then None
      else if index \<ge> len then None
      else
        (let child = dfa_init_chain symbol (index + 1) len
         in Some (DFANode (symbol ! index) (index = len - 1)
                    (case child of
                       Some c \<Rightarrow> (if 0 < DFA_MAX_CHILDREN then [c] else [])
                     | None \<Rightarrow> []))))"
  by pat_completeness auto
termination
  by (relation "measure (\<lambda>(symbol, index, len). len - index)") auto

fun find_child :: "char \<Rightarrow> DFANode list \<Rightarrow> nat option" where
  "find_child c [] = None"
| "find_child c (n # ns) =
     (if c = val n then Some 0 else map_option Suc (find_child c ns))"

function dfa_brute_LCA :: "DFANode \<Rightarrow> string \<Rightarrow> nat \<Rightarrow> nat \<Rightarrow> DFANode" where
  "dfa_brute_LCA root symbol index len =
     (if index \<ge> len then DFANode (val root) True (children root)
      else
        (case find_child (symbol ! index) (children root) of
           Some i \<Rightarrow>
             DFANode (val root) (isLeaf root)
               ((children root)[i := dfa_brute_LCA (children root ! i) symbol (index + 1) len])
         | None \<Rightarrow>
             (if length (children root) < DFA_MAX_CHILDREN then
                (case dfa_init_chain symbol index len of
                   Some child \<Rightarrow> DFANode (val root) (isLeaf root) (children root @ [child])
                 | None \<Rightarrow> root)
              else root)))"
  by pat_completeness auto
termination
  by (relation "measure (\<lambda>(root, symbol, index, len). len - index)") auto

definition dfa_add_symbol :: "DFA \<Rightarrow> string \<Rightarrow> DFA" where
  "dfa_add_symbol head symbol =
     (let len = length symbol in
      if len = 0 then head
      else
        (case find_child (symbol ! 0) head of
           Some i \<Rightarrow> head[i := dfa_brute_LCA (head ! i) symbol 1 len]
         | None \<Rightarrow>
             (if length head < DFA_MAX_ROOTS then
                (case dfa_init_chain symbol 0 len of
                   Some n \<Rightarrow> head @ [n]
                 | None \<Rightarrow> head)
              else head)))"

function dfa_walk :: "DFANode \<Rightarrow> string \<Rightarrow> nat \<Rightarrow> nat \<Rightarrow> bool" where
  "dfa_walk node symbol idx len =
     (if idx < len then
        (case find_child (symbol ! idx) (children node) of
           None \<Rightarrow> False
         | Some c \<Rightarrow> dfa_walk (children node ! c) symbol (idx + 1) len)
      else isLeaf node)"
  by pat_completeness auto
termination
  by (relation "measure (\<lambda>(node, symbol, idx, len). len - idx)") auto

definition dfa_match :: "DFA \<Rightarrow> string \<Rightarrow> nat \<Rightarrow> bool" where
  "dfa_match head symbol len =
     (if len = 0 then False
      else
        (case find_child (symbol ! 0) head of
           None \<Rightarrow> False
         | Some i \<Rightarrow> dfa_walk (head ! i) symbol 1 len))"

definition kw_dfa :: DFA where
  "kw_dfa = foldl dfa_add_symbol [] KEYWORDS"

definition is_keyword :: "string \<Rightarrow> nat \<Rightarrow> bool" where
  "is_keyword s n = dfa_match kw_dfa s n"

fun node_words :: "DFANode \<Rightarrow> string list" where
  "node_words (DFANode v l cs) =
     (if l then [[v]] else []) @ concat (map (\<lambda>c. map ((#) v) (node_words c)) cs)"

fun node_ok :: "DFANode \<Rightarrow> bool" where
  "node_ok (DFANode v l cs) = (distinct (map val cs) \<and> list_all node_ok cs)"

declare dfa_init_chain.simps [simp del] dfa_brute_LCA.simps [simp del] dfa_walk.simps [simp del]

lemma find_child_None: "find_child c ns = None \<longleftrightarrow> c \<notin> val ` set ns"
  by (induction ns) auto

lemma find_child_Some:
  "find_child c ns = Some i \<Longrightarrow> i < length ns \<and> val (ns ! i) = c"
  by (induction ns arbitrary: i) (auto split: if_splits)

lemma node_words_hd: "w \<in> set (node_words n) \<Longrightarrow> \<exists>t. w = val n # t"
  by (cases n) (auto split: if_splits)

lemma node_ok_child: "node_ok n \<Longrightarrow> c \<in> set (children n) \<Longrightarrow> node_ok c"
  by (cases n) (auto simp: list_all_iff)

lemma node_words_Nil: "[val n] \<in> set (node_words n) \<longleftrightarrow> isLeaf n"
  by (cases n) (auto dest: node_words_hd)

lemma distinct_val_unique:
  "distinct (map val cs) \<Longrightarrow> c \<in> set cs \<Longrightarrow> d \<in> set cs \<Longrightarrow> val c = val d \<Longrightarrow> c = d"
  by (meson distinct_map inj_onD)

lemma node_words_Cons:
  assumes "distinct (map val (children n))" "find_child x (children n) = Some i"
  shows "val n # x # t \<in> set (node_words n) \<longleftrightarrow> x # t \<in> set (node_words (children n ! i))"
proof -
  obtain v l cs where n: "n = DFANode v l cs" by (cases n)
  from assms(2) n have i: "i < length cs" "val (cs ! i) = x"
    using find_child_Some by fastforce+
  have "val n # x # t \<in> set (node_words n) \<longleftrightarrow> (\<exists>c\<in>set cs. x # t \<in> set (node_words c))"
    using n by auto
  also have "\<dots> \<longleftrightarrow> x # t \<in> set (node_words (cs ! i))"
  proof
    assume "\<exists>c\<in>set cs. x # t \<in> set (node_words c)"
    then obtain c where c: "c \<in> set cs" "x # t \<in> set (node_words c)" by blast
    then have "val c = x" using node_words_hd by fastforce
    then have "c = cs ! i"
      using distinct_val_unique[of cs c "cs ! i"] assms(1) n c(1) i by simp
    with c show "x # t \<in> set (node_words (cs ! i))" by simp
  next
    assume "x # t \<in> set (node_words (cs ! i))"
    then show "\<exists>c\<in>set cs. x # t \<in> set (node_words c)" using i(1) nth_mem by blast
  qed
  finally show ?thesis using n by simp
qed

lemma node_words_Cons_None:
  assumes "find_child x (children n) = None"
  shows "val n # x # t \<notin> set (node_words n)"
proof -
  obtain v l cs where n: "n = DFANode v l cs" by (cases n)
  from assms n have "x \<notin> val ` set cs" by (simp add: find_child_None)
  then have "\<not> (\<exists>c\<in>set cs. x # t \<in> set (node_words c))"
    using node_words_hd by fastforce
  then show ?thesis using n by auto
qed

lemma dfa_walk_words:
  "node_ok node \<Longrightarrow> idx \<le> len \<Longrightarrow> len \<le> length symbol \<Longrightarrow>
   dfa_walk node symbol idx len \<longleftrightarrow>
     val node # drop idx (take len symbol) \<in> set (node_words node)"
proof (induction node symbol idx len rule: dfa_walk.induct)
  case (1 node symbol idx len)
  show ?case
  proof (cases "idx < len")
    case False
    with 1 have "idx = len" by simp
    then show ?thesis
      by (simp add: dfa_walk.simps[of node symbol len len] node_words_Nil)
  next
    case True
    have "idx < length (take len symbol)" using True "1.prems" by simp
    from Cons_nth_drop_Suc[OF this]
    have dr: "drop idx (take len symbol) = symbol ! idx # drop (idx + 1) (take len symbol)"
      using True by simp
    have dist: "distinct (map val (children node))"
      using "1.prems"(1) by (cases node) simp
    show ?thesis
    proof (cases "find_child (symbol ! idx) (children node)")
      case None
      then show ?thesis
        using True dr node_words_Cons_None[OF None]
        by (simp add: dfa_walk.simps[of node symbol idx len])
    next
      case (Some i)
      have "children node ! i \<in> set (children node)"
        using find_child_Some[OF Some] by simp
      then have ok: "node_ok (children node ! i)"
        using "1.prems"(1) node_ok_child by blast
      have vi: "val (children node ! i) = symbol ! idx"
        using find_child_Some[OF Some] by simp
      have "dfa_walk (children node ! i) symbol (idx + 1) len \<longleftrightarrow>
            val (children node ! i) # drop (idx + 1) (take len symbol)
              \<in> set (node_words (children node ! i))"
        using "1.IH"[OF True Some ok] True "1.prems" by simp
      then show ?thesis
        using True Some dr vi node_words_Cons[OF dist Some]
        by (simp add: dfa_walk.simps[of node symbol idx len])
    qed
  qed
qed

definition dfa_words :: "DFA \<Rightarrow> string list" where
  "dfa_words head = concat (map node_words head)"

definition dfa_ok :: "DFA \<Rightarrow> bool" where
  "dfa_ok head = (distinct (map val head) \<and> list_all node_ok head)"

lemma dfa_match_words:
  assumes "dfa_ok head" "len \<le> length symbol"
  shows "dfa_match head symbol len \<longleftrightarrow> take len symbol \<in> set (dfa_words head)"
proof (cases "len = 0")
  case True
  have "[] \<notin> set (dfa_words head)"
    using node_words_hd by (fastforce simp: dfa_words_def)
  with True show ?thesis by (simp add: dfa_match_def)
next
  case False
  with assms(2) have tk: "take len symbol = symbol ! 0 # drop 1 (take len symbol)"
    by (cases symbol; cases len) auto
  show ?thesis
  proof (cases "find_child (symbol ! 0) head")
    case None
    then have "symbol ! 0 \<notin> val ` set head" by (simp add: find_child_None)
    then have "\<not> (\<exists>n\<in>set head. symbol ! 0 # drop 1 (take len symbol) \<in> set (node_words n))"
      using node_words_hd by fastforce
    then have "take len symbol \<notin> set (dfa_words head)"
      using tk by (simp add: dfa_words_def)
    with None False show ?thesis by (simp add: dfa_match_def)
  next
    case (Some i)
    have i: "i < length head" "val (head ! i) = symbol ! 0"
      using find_child_Some[OF Some] by simp_all
    have ok: "node_ok (head ! i)"
      using assms(1) i(1) by (simp add: dfa_ok_def list_all_length)
    have w: "dfa_walk (head ! i) symbol 1 len \<longleftrightarrow>
             symbol ! 0 # drop 1 (take len symbol) \<in> set (node_words (head ! i))"
      using dfa_walk_words[OF ok, of 1 len symbol] False assms(2) i(2) by simp
    have "(\<exists>n\<in>set head. symbol ! 0 # drop 1 (take len symbol) \<in> set (node_words n))
          \<longleftrightarrow> symbol ! 0 # drop 1 (take len symbol) \<in> set (node_words (head ! i))"
    proof
      assume "\<exists>n\<in>set head. symbol ! 0 # drop 1 (take len symbol) \<in> set (node_words n)"
      then obtain n where n: "n \<in> set head"
        "symbol ! 0 # drop 1 (take len symbol) \<in> set (node_words n)" by blast
      then have "val n = symbol ! 0" using node_words_hd by fastforce
      then have "n = head ! i"
        using distinct_val_unique[of head n "head ! i"] assms(1) n(1) i
        by (simp add: dfa_ok_def)
      with n show "symbol ! 0 # drop 1 (take len symbol) \<in> set (node_words (head ! i))" by simp
    next
      assume "symbol ! 0 # drop 1 (take len symbol) \<in> set (node_words (head ! i))"
      then show "\<exists>n\<in>set head. symbol ! 0 # drop 1 (take len symbol) \<in> set (node_words n)"
        using i(1) nth_mem by blast
    qed
    then have "take len symbol \<in> set (dfa_words head) \<longleftrightarrow>
               symbol ! 0 # drop 1 (take len symbol) \<in> set (node_words (head ! i))"
      using tk by (simp add: dfa_words_def)
    with w Some False show ?thesis by (simp add: dfa_match_def)
  qed
qed

lemma kw_dfa_ok: "dfa_ok kw_dfa"
  by code_simp

lemma kw_dfa_words: "set (dfa_words kw_dfa) = set KEYWORDS"
  by code_simp

lemma is_keyword_take:
  "n \<le> length s \<Longrightarrow> is_keyword s n \<longleftrightarrow> take n s \<in> set KEYWORDS"
  using dfa_match_words[OF kw_dfa_ok, of n s] kw_dfa_words by (simp add: is_keyword_def)

lemma keyword_prefix_pairs:
  "k \<in> set KEYWORDS \<Longrightarrow> k' \<in> set KEYWORDS \<Longrightarrow> strict_prefix k k' \<Longrightarrow>
   k = ''else'' \<and> k' = ''elseif''"
proof -
  have "\<forall>k\<in>set KEYWORDS. \<forall>k'\<in>set KEYWORDS.
          strict_prefix k k' \<longrightarrow> k = ''else'' \<and> k' = ''elseif''"
    unfolding KEYWORDS_def by simp
  then show "k \<in> set KEYWORDS \<Longrightarrow> k' \<in> set KEYWORDS \<Longrightarrow> strict_prefix k k' \<Longrightarrow>
    k = ''else'' \<and> k' = ''elseif''" by blast
qed

text \<open>
  Claim C1, as amended. \<open>is_keyword s |s|\<close> holds exactly for the 22 words of
  \<open>KEYWORDS\<close>. Hence it is false for every proper prefix of a keyword other than
  \<open>else\<close> (a proper prefix of the keyword \<open>elseif\<close> and itself a keyword), and false
  for every proper extension of a keyword other than \<open>elseif\<close>.
\<close>

theorem is_keyword_exact:
  "(is_keyword s (length s) \<longleftrightarrow> s \<in> set KEYWORDS) \<and>
   (\<forall>k\<in>set KEYWORDS. strict_prefix s k \<and> s \<noteq> ''else'' \<longrightarrow> \<not> is_keyword s (length s)) \<and>
   (\<forall>k\<in>set KEYWORDS. strict_prefix k s \<and> s \<noteq> ''elseif'' \<longrightarrow> \<not> is_keyword s (length s))"
proof -
  have iff: "is_keyword s (length s) \<longleftrightarrow> s \<in> set KEYWORDS"
    using is_keyword_take[of "length s" s] by simp
  have pre: "\<not> is_keyword s (length s)"
    if "k \<in> set KEYWORDS" "strict_prefix s k" "s \<noteq> ''else''" for k
    using keyword_prefix_pairs[of s k] that iff by blast
  have ext: "\<not> is_keyword s (length s)"
    if "k \<in> set KEYWORDS" "strict_prefix k s" "s \<noteq> ''elseif''" for k
    using keyword_prefix_pairs[of k s] that iff by blast
  show ?thesis using iff pre ext by blast
qed

theorem is_keyword_exact_witness:
  "''if'' \<in> set KEYWORDS \<and> strict_prefix ''i'' ''if'' \<and> strict_prefix ''if'' ''ifx''
   \<and> is_keyword ''if'' (length ''if'')
   \<and> \<not> is_keyword ''i'' (length ''i'')
   \<and> \<not> is_keyword ''ifx'' (length ''ifx'')"
  using is_keyword_exact[of "''if''"] is_keyword_exact[of "''i''"] is_keyword_exact[of "''ifx''"]
  by (simp add: KEYWORDS_def)

text \<open>
  Claim C1 as stated fails: \<open>else\<close> is a proper prefix of the keyword \<open>elseif\<close>, and
  \<open>is_keyword\<close> accepts it.
\<close>

theorem is_keyword_prefix_counterexample:
  "''elseif'' \<in> set KEYWORDS \<and> strict_prefix ''else'' ''elseif''
   \<and> is_keyword ''else'' (length ''else'')"
  using is_keyword_take[of "length ''else''" "''else''"] by (simp add: KEYWORDS_def)

section \<open>Scanner (KSHARP2.0.C)\<close>

text \<open>
  The lexer state is the record \<open>Lexer\<close> of the source; a token is the record
  \<open>Token\<close>, whose fields \<open>line\<close> and \<open>col\<close> are named \<open>tok_line\<close> and
  \<open>tok_col\<close> here because the lexer state has fields of the same names. A \<open>NULL\<close>
  string is \<open>None\<close>. \<open>peek\<close> and \<open>advance\<close> return an \<open>int\<close> in the source, a
  character or \<open>EOF\<close>; the model returns \<open>Some c\<close> or \<open>None\<close>. The buffer is an
  array of \<open>char\<close> and both functions return \<open>L->buf[pos]\<close> converted to \<open>int\<close>: with
  a signed \<open>char\<close> the byte \<open>0xFF\<close> has the value \<open>-1\<close>, which is \<open>EOF\<close>, and
  \<open>char_as_int\<close> is this conversion. The other bytes above \<open>0x7F\<close> are negative and
  different from \<open>EOF\<close>; they pass none of the character tests. \<open>isdigit\<close>,
  \<open>isalpha\<close> and \<open>isalnum\<close> are those of the C locale. A pointer into the buffer
  (\<open>L->buf + start\<close>) is the list of bytes from that position on; \<open>dup_n\<close> copies
  \<open>n\<close> of them and the copy, read as a C string, ends at the first NUL byte. The
  \<open>while\<close> loops of the scanners are the recursive functions \<open>skip_ws\<close>,
  \<open>skip_digits\<close>, \<open>skip_word\<close>, \<open>skip_line\<close>, \<open>block_comment_loop\<close> and
  \<open>scan_string_loop\<close>. \<open>is_keyword\<close> consults the DFA that
  \<open>build_keyword_dfa\<close> builds once, the constant \<open>kw_dfa\<close>.
\<close>

datatype TokenType =
    TOK_IDENTIFIER | TOK_KEYWORD | TOK_RESERVED_TYPE | TOK_CONST_INT | TOK_CONST_FLOAT
  | TOK_CONST_CHAR | TOK_CONST_BOOL | TOK_CONST_STRING | TOK_OP_ARITH | TOK_OP_REL
  | TOK_OP_LOGIC | TOK_ASSIGN | TOK_DELIM | TOK_BRACKET | TOK_COMMENT | TOK_NOISE
  | TOK_UNKNOWN | TOK_EOF

record Token =
  type :: TokenType
  lexeme :: "string option"
  tok_line :: int
  tok_col :: int
  extra :: "string option"

definition c_str :: "string \<Rightarrow> string" where
  "c_str bytes = takeWhile (\<lambda>c. c \<noteq> CHR 0x00) bytes"

definition dup_n :: "string \<Rightarrow> nat \<Rightarrow> string" where
  "dup_n s n = c_str (take n s)"

definition dup_s :: "string \<Rightarrow> string" where
  "dup_s s = dup_n s (length (c_str s))"

definition lowerc :: "char \<Rightarrow> char" where
  "lowerc ch =
     (if (65::nat) \<le> of_char ch \<and> of_char ch \<le> (90::nat)
      then char_of (of_char ch - (65::nat) + 97)
      else ch)"

record Lexer =
  buf :: string
  len :: nat
  pos :: nat
  line :: int
  col :: int

definition char_as_int :: "char \<Rightarrow> char option" where
  "char_as_int c = (if c = CHR 0xFF then None else Some c)"

definition peek :: "Lexer \<Rightarrow> char option" where
  "peek L = (if pos L < len L then char_as_int (buf L ! pos L) else None)"

definition advance :: "Lexer \<Rightarrow> char option \<times> Lexer" where
  "advance L =
     (if pos L \<ge> len L then (None, L)
      else
        (let c = buf L ! pos L;
             L1 = L\<lparr>pos := pos L + 1\<rparr>
         in if c = CHR 0x0A
            then (char_as_int c, L1\<lparr>line := line L1 + 1, col := 1\<rparr>)
            else (char_as_int c, L1\<lparr>col := col L1 + 1\<rparr>)))"

definition match :: "Lexer \<Rightarrow> char \<Rightarrow> bool \<times> Lexer" where
  "match L ch = (if peek L = Some ch then (True, snd (advance L)) else (False, L))"

lemma advance_pos_less [termination_simp]:
  "pos L < len L \<Longrightarrow> len (snd (advance L)) - pos (snd (advance L)) < len L - pos L"
  by (simp add: advance_def Let_def)

lemma peek_Some_less: "peek L = Some c \<Longrightarrow> pos L < len L"
  by (simp add: peek_def split: if_splits)

function skip_ws :: "Lexer \<Rightarrow> Lexer" where
  "skip_ws L =
     (let c = peek L in
      if c = Some CHR '' '' \<or> c = Some CHR 0x09 \<or> c = Some CHR 0x0D \<or> c = Some CHR 0x0A
      then skip_ws (snd (advance L))
      else L)"
  by pat_completeness auto
termination
  by (relation "measure (\<lambda>L. len L - pos L)")
     (auto simp: advance_pos_less dest!: peek_Some_less)

definition make :: "Lexer \<Rightarrow> TokenType \<Rightarrow> string option \<Rightarrow> nat \<Rightarrow> string option \<Rightarrow> Token" where
  "make L ty s n ex =
     \<lparr>type = ty,
      lexeme = map_option (\<lambda>s. dup_n s n) s,
      tok_line = line L,
      tok_col = col L,
      extra = map_option dup_s ex\<rparr>"

definition isdigit :: "char option \<Rightarrow> bool" where
  "isdigit c = (case c of None \<Rightarrow> False
                | Some ch \<Rightarrow> (48::nat) \<le> of_char ch \<and> of_char ch \<le> (57::nat))"

definition isalpha :: "char option \<Rightarrow> bool" where
  "isalpha c = (case c of None \<Rightarrow> False
                | Some ch \<Rightarrow> ((65::nat) \<le> of_char ch \<and> of_char ch \<le> (90::nat))
                          \<or> ((97::nat) \<le> of_char ch \<and> of_char ch \<le> (122::nat)))"

definition isalnum :: "char option \<Rightarrow> bool" where
  "isalnum c = (isalpha c \<or> isdigit c)"

definition is_type :: "string \<Rightarrow> nat \<Rightarrow> bool" where
  "is_type s n =
     (let c = lowerc (s ! 0) in
      if c = CHR ''i'' then n = 3 \<and> s ! 1 = CHR ''n'' \<and> s ! 2 = CHR ''t''
      else if c = CHR ''f'' then
        n = 5 \<and> s ! 1 = CHR ''l'' \<and> s ! 2 = CHR ''o'' \<and> s ! 3 = CHR ''a'' \<and> s ! 4 = CHR ''t''
      else if c = CHR ''c'' then n = 4 \<and> s ! 1 = CHR ''h'' \<and> s ! 2 = CHR ''a'' \<and> s ! 3 = CHR ''r''
      else if c = CHR ''b'' then n = 4 \<and> s ! 1 = CHR ''o'' \<and> s ! 2 = CHR ''o'' \<and> s ! 3 = CHR ''l''
      else if c = CHR ''v'' then n = 4 \<and> s ! 1 = CHR ''o'' \<and> s ! 2 = CHR ''i'' \<and> s ! 3 = CHR ''d''
      else False)"

definition is_noise :: "string \<Rightarrow> nat \<Rightarrow> bool" where
  "is_noise s n =
     (let c = lowerc (s ! 0) in
      if c = CHR ''p'' then
        n = 6 \<and> s ! 1 = CHR ''l'' \<and> s ! 2 = CHR ''e'' \<and> s ! 3 = CHR ''a'' \<and> s ! 4 = CHR ''s''
          \<and> s ! 5 = CHR ''e''
      else if c = CHR ''t'' then
        (if n = 4 \<and> s ! 1 = CHR ''h'' \<and> s ! 2 = CHR ''e'' \<and> s ! 3 = CHR ''n'' then True
         else if n = 2 \<and> s ! 1 = CHR ''o'' then True
         else False)
      else if c = CHR ''d'' then n = 2 \<and> s ! 1 = CHR ''o''
      else if c = CHR ''e'' then n = 3 \<and> s ! 1 = CHR ''n'' \<and> s ! 2 = CHR ''d''
      else if c = CHR ''b'' then
        n = 5 \<and> s ! 1 = CHR ''e'' \<and> s ! 2 = CHR ''g'' \<and> s ! 3 = CHR ''i'' \<and> s ! 4 = CHR ''n''
      else if c = CHR ''o'' then n = 2 \<and> s ! 1 = CHR ''f''
      else if c = CHR ''a'' then n = 3 \<and> s ! 1 = CHR ''n'' \<and> s ! 2 = CHR ''d''
      else if c = CHR ''f'' then n = 4 \<and> s ! 1 = CHR ''r'' \<and> s ! 2 = CHR ''o'' \<and> s ! 3 = CHR ''m''
      else False)"

definition is_bool_lit :: "string \<Rightarrow> nat \<Rightarrow> int" where
  "is_bool_lit s n =
     (if n = 4 \<and> lowerc (s ! 0) = CHR ''t'' \<and> s ! 1 = CHR ''r'' \<and> s ! 2 = CHR ''u''
          \<and> s ! 3 = CHR ''e'' then 1
      else if n = 5 \<and> lowerc (s ! 0) = CHR ''f'' \<and> s ! 1 = CHR ''a'' \<and> s ! 2 = CHR ''l''
          \<and> s ! 3 = CHR ''s'' \<and> s ! 4 = CHR ''e'' then 0
      else - 1)"

definition is_word_op :: "string \<Rightarrow> nat \<Rightarrow> bool \<times> string option" where
  "is_word_op s n =
     (if n = 3 then
        (let a = lowerc (s ! 0); b = lowerc (s ! 1); c = lowerc (s ! 2) in
         if a = CHR ''d'' \<and> b = CHR ''i'' \<and> c = CHR ''v'' then (True, Some ''DIV'')
         else if a = CHR ''m'' \<and> b = CHR ''o'' \<and> c = CHR ''d'' then (True, Some ''MOD'')
         else (False, None))
      else (False, None))"

function scan_string_loop :: "Lexer \<Rightarrow> nat \<Rightarrow> int \<Rightarrow> Token \<times> Lexer" where
  "scan_string_loop L p col0 =
     (case peek L of
        None \<Rightarrow> (make L TOK_UNKNOWN (Some ''<unterminated_string>'') 22 None, L)
      | Some c \<Rightarrow>
          if c = CHR 0x5C then
            (let L1 = snd (advance L);
                 L2 = (if peek L1 \<noteq> None then snd (advance L1) else L1)
             in scan_string_loop L2 p col0)
          else if c = CHR 0x22 then
            (let n = pos L - p;
                 t = make L TOK_CONST_STRING (Some (drop p (buf L))) n None;
                 L1 = snd (advance L)
             in (t\<lparr>tok_col := col0\<rparr>, L1))
          else if c = CHR 0x0A then
            (make L TOK_UNKNOWN (Some ''<unterminated_string>'') 22 None, L)
          else scan_string_loop (snd (advance L)) p col0)"
  by pat_completeness auto
termination
  by (relation "measure (\<lambda>(L, p, col0). len L - pos L)")
     (auto simp: advance_def peek_def Let_def split: if_splits)

definition scan_string :: "Lexer \<Rightarrow> Token \<times> Lexer" where
  "scan_string L =
     (let col0 = col L;
          L1 = snd (advance L);
          p = pos L1
      in scan_string_loop L1 p col0)"

definition scan_char :: "Lexer \<Rightarrow> Token \<times> Lexer" where
  "scan_char L =
     (let col0 = col L;
          L1 = snd (advance L);
          (c, L2) = advance L1;
          L3 = (if c = Some CHR 0x5C then snd (advance L2) else L2)
      in if peek L3 = Some CHR 0x27 then
           (let L4 = snd (advance L3);
                t = make L4 TOK_CONST_CHAR (Some ''<char>'') 6 None
            in (t\<lparr>tok_col := col0\<rparr>, L4))
         else (make L3 TOK_UNKNOWN (Some ''<unterminated_char>'') 20 None, L3))"

function skip_digits :: "Lexer \<Rightarrow> Lexer" where
  "skip_digits L = (if isdigit (peek L) then skip_digits (snd (advance L)) else L)"
  by pat_completeness auto
termination
  by (relation "measure (\<lambda>L. len L - pos L)")
     (auto simp: advance_def peek_def isdigit_def Let_def split: if_splits)

definition scan_number :: "Lexer \<Rightarrow> Token \<times> Lexer" where
  "scan_number L =
     (let start = pos L;
          col0 = col L;
          L1 = skip_digits L
      in if peek L1 = Some CHR ''.'' then
           (let L2 = snd (advance L1) in
            if \<not> isdigit (peek L2) then
              (make L2 TOK_UNKNOWN (Some ''<bad_float>'') 10 None, L2)
            else
              (let L3 = skip_digits L2;
                   n = pos L3 - start;
                   t = make L3 TOK_CONST_FLOAT (Some (drop start (buf L3))) n None
               in (t\<lparr>tok_col := col0\<rparr>, L3)))
         else
           (let n = pos L1 - start;
                t = make L1 TOK_CONST_INT (Some (drop start (buf L1))) n None
            in (t\<lparr>tok_col := col0\<rparr>, L1)))"

function skip_word :: "Lexer \<Rightarrow> Lexer" where
  "skip_word L =
     (if isalnum (peek L) \<or> peek L = Some CHR ''_'' then skip_word (snd (advance L)) else L)"
  by pat_completeness auto
termination
  by (relation "measure (\<lambda>L. len L - pos L)")
     (auto simp: advance_def peek_def isalnum_def isalpha_def isdigit_def Let_def
           split: if_splits)

definition scan_identifier_or_keyword :: "Lexer \<Rightarrow> Token \<times> Lexer" where
  "scan_identifier_or_keyword L =
     (let start = pos L;
          col0 = col L;
          L1 = skip_word (snd (advance L));
          n = pos L1 - start;
          s = drop start (buf L1)
      in if is_bool_lit s n \<noteq> - 1 then
           ((make L1 TOK_CONST_BOOL (Some s) n None)\<lparr>tok_col := col0\<rparr>, L1)
         else if fst (is_word_op s n) then
           ((make L1 TOK_OP_ARITH (Some s) n (snd (is_word_op s n)))\<lparr>tok_col := col0\<rparr>, L1)
         else if is_type s n then
           ((make L1 TOK_RESERVED_TYPE (Some s) n None)\<lparr>tok_col := col0\<rparr>, L1)
         else if is_keyword s n then
           ((make L1 TOK_KEYWORD (Some s) n None)\<lparr>tok_col := col0\<rparr>, L1)
         else if is_noise s n then
           ((make L1 TOK_NOISE (Some s) n None)\<lparr>tok_col := col0\<rparr>, L1)
         else
           ((make L1 TOK_IDENTIFIER (Some s) n None)\<lparr>tok_col := col0\<rparr>, L1))"

function skip_line :: "Lexer \<Rightarrow> Lexer" where
  "skip_line L =
     (if peek L \<noteq> None \<and> peek L \<noteq> Some CHR 0x0A then skip_line (snd (advance L)) else L)"
  by pat_completeness auto
termination
  by (relation "measure (\<lambda>L. len L - pos L)")
     (auto simp: advance_def peek_def Let_def split: if_splits)

function block_comment_loop :: "Lexer \<Rightarrow> char \<Rightarrow> int \<Rightarrow> Token \<times> Lexer" where
  "block_comment_loop L prev col0 =
     (case advance L of
        (None, L1) \<Rightarrow> (make L1 TOK_UNKNOWN (Some ''<unterminated_comment>'') 22 None, L1)
      | (Some cur, L1) \<Rightarrow>
          if prev = CHR ''*'' \<and> cur = CHR ''/'' then
            ((make L1 TOK_COMMENT (Some ''/* */'') 5 None)\<lparr>tok_col := col0\<rparr>, L1)
          else block_comment_loop L1 cur col0)"
  by pat_completeness auto
termination
  by (relation "measure (\<lambda>(L, prev, col0). len L - pos L)")
     (auto simp: advance_def Let_def split: if_splits)

definition char_buf :: "char option \<Rightarrow> string" where
  "char_buf c = (case c of Some ch \<Rightarrow> [ch] | None \<Rightarrow> [CHR 0xFF])"

definition scan_slash_comment_or_op :: "Lexer \<Rightarrow> Token \<times> Lexer" where
  "scan_slash_comment_or_op L =
     (let col0 = col L;
          (m1, L1) = match L CHR ''/''
      in if m1 then
           (let (m2, L2) = match L1 CHR ''/'' in
            if m2 then
              (let L3 = skip_line L2 in
               ((make L3 TOK_COMMENT (Some ''//'') 2 None)\<lparr>tok_col := col0\<rparr>, L3))
            else
              (let (m3, L3) = match L2 CHR ''*'' in
               if m3 then block_comment_loop L3 (CHR 0x00) col0
               else ((make L3 TOK_OP_ARITH (Some ''/'') 1 (Some ''/''))\<lparr>tok_col := col0\<rparr>, L3)))
         else
           (let (c, L2) = advance L1;
                s2 = char_buf c
            in (make L2 TOK_UNKNOWN (Some s2) 1 None, L2)))"

definition scan_operator :: "Lexer \<Rightarrow> Token \<times> Lexer" where
  "scan_operator L =
     (let col0 = col L;
          (c, L1) = advance L
      in if c = Some CHR ''='' \<and> fst (match L1 CHR ''='') then
           (let L2 = snd (match L1 CHR ''='') in
            ((make L2 TOK_OP_REL (Some ''=='') 2 (Some ''==''))\<lparr>tok_col := col0\<rparr>, L2))
         else if c = Some CHR ''!'' \<and> fst (match L1 CHR ''='') then
           (let L2 = snd (match L1 CHR ''='') in
            ((make L2 TOK_OP_REL (Some ''!='') 2 (Some ''!=''))\<lparr>tok_col := col0\<rparr>, L2))
         else if c = Some CHR ''<'' \<and> fst (match L1 CHR ''='') then
           (let L2 = snd (match L1 CHR ''='') in
            ((make L2 TOK_OP_REL (Some ''<='') 2 (Some ''<=''))\<lparr>tok_col := col0\<rparr>, L2))
         else if c = Some CHR ''>'' \<and> fst (match L1 CHR ''='') then
           (let L2 = snd (match L1 CHR ''='') in
            ((make L2 TOK_OP_REL (Some ''>='') 2 (Some ''>=''))\<lparr>tok_col := col0\<rparr>, L2))
         else if c = Some CHR ''&'' \<and> fst (match L1 CHR ''&'') then
           (let L2 = snd (match L1 CHR ''&'') in
            ((make L2 TOK_OP_LOGIC (Some ''&&'') 2 (Some ''&&''))\<lparr>tok_col := col0\<rparr>, L2))
         else if c = Some CHR ''|'' \<and> fst (match L1 CHR ''|'') then
           (let L2 = snd (match L1 CHR ''|'') in
            ((make L2 TOK_OP_LOGIC (Some ''||'') 2 (Some ''||''))\<lparr>tok_col := col0\<rparr>, L2))
         else if c = Some CHR ''*'' \<and> fst (match L1 CHR ''*'') then
           (let L2 = snd (match L1 CHR ''*'') in
            ((make L2 TOK_OP_ARITH (Some ''**'') 2 (Some ''**''))\<lparr>tok_col := col0\<rparr>, L2))
         else if c = Some CHR ''='' then
           ((make L1 TOK_ASSIGN (Some ''='') 1 (Some ''=''))\<lparr>tok_col := col0\<rparr>, L1)
         else if c = Some CHR ''+'' \<or> c = Some CHR ''-'' \<or> c = Some CHR ''*''
                 \<or> c = Some CHR ''/'' \<or> c = Some CHR ''%'' then
           ((make L1 TOK_OP_ARITH (Some (char_buf c)) 1 (Some (char_buf c)))\<lparr>tok_col := col0\<rparr>, L1)
         else if c = Some CHR ''<'' \<or> c = Some CHR ''>'' then
           ((make L1 TOK_OP_REL (Some (char_buf c)) 1 (Some (char_buf c)))\<lparr>tok_col := col0\<rparr>, L1)
         else if c = Some CHR ''!'' then
           ((make L1 TOK_OP_LOGIC (Some ''!'') 1 (Some ''!''))\<lparr>tok_col := col0\<rparr>, L1)
         else (make L1 TOK_UNKNOWN (Some (char_buf c)) 1 None, L1))"

definition is_delim :: "char option \<Rightarrow> bool" where
  "is_delim c = (c = Some CHR '';'' \<or> c = Some CHR '','' \<or> c = Some CHR '':'' \<or> c = Some CHR ''.'')"

definition is_bracket :: "char option \<Rightarrow> bool" where
  "is_bracket c = (c = Some CHR ''('' \<or> c = Some CHR '')'' \<or> c = Some CHR ''{''
                   \<or> c = Some CHR ''}'' \<or> c = Some CHR ''['' \<or> c = Some CHR '']'')"

definition next_token :: "Lexer \<Rightarrow> Token \<times> Lexer" where
  "next_token L0 =
     (let L = skip_ws L0;
          c = peek L
      in if c = None then (make L TOK_EOF None 0 None, L)
         else if is_delim c then
           (let (ch, L1) = advance L; s2 = char_buf ch
            in (make L1 TOK_DELIM (Some s2) 1 (Some s2), L1))
         else if is_bracket c then
           (let (ch, L1) = advance L; s2 = char_buf ch
            in (make L1 TOK_BRACKET (Some s2) 1 (Some s2), L1))
         else if isalpha c \<or> c = Some CHR ''_'' then scan_identifier_or_keyword L
         else if isdigit c then scan_number L
         else if c = Some CHR 0x22 then scan_string L
         else if c = Some CHR 0x27 then scan_char L
         else if c = Some CHR ''/'' then scan_slash_comment_or_op L
         else if c = Some CHR ''*'' \<or> c = Some CHR ''+'' \<or> c = Some CHR ''-''
                 \<or> c = Some CHR ''%'' \<or> c = Some CHR ''='' \<or> c = Some CHR ''<''
                 \<or> c = Some CHR ''>'' \<or> c = Some CHR ''!'' \<or> c = Some CHR ''&''
                 \<or> c = Some CHR ''|'' then scan_operator L
         else
           (let L1 = snd (advance L); s2 = char_buf c
            in (make L1 TOK_UNKNOWN (Some s2) 1 None, L1)))"

definition init_lexer :: "string \<Rightarrow> Lexer" where
  "init_lexer b = \<lparr>buf = b, len = length b, pos = 0, line = 1, col = 1\<rparr>"

subsection \<open>Cursor facts and number tokens\<close>

text \<open>
  For a lexer state whose \<open>len\<close> is the length of its buffer, \<open>rest_of\<close> is the
  input still to be read: \<open>peek\<close> looks at its head and \<open>advance\<close> drops it.
\<close>

declare skip_ws.simps [simp del] skip_digits.simps [simp del] skip_word.simps [simp del]
  skip_line.simps [simp del] block_comment_loop.simps [simp del] scan_string_loop.simps [simp del]

definition lexer_ok :: "Lexer \<Rightarrow> bool" where
  "lexer_ok L = (len L = length (buf L))"

definition rest_of :: "Lexer \<Rightarrow> string" where
  "rest_of L = drop (pos L) (buf L)"

lemma advance_buf [simp]: "buf (snd (advance L)) = buf L"
  by (simp add: advance_def Let_def)

lemma advance_len [simp]: "len (snd (advance L)) = len L"
  by (simp add: advance_def Let_def)

lemma advance_pos: "pos (snd (advance L)) = (if pos L < len L then pos L + 1 else pos L)"
  by (simp add: advance_def Let_def)

lemma advance_fst: "fst (advance L) = peek L"
  by (simp add: advance_def peek_def Let_def)

lemma advance_ok [simp]: "lexer_ok (snd (advance L)) = lexer_ok L"
  by (simp add: lexer_ok_def)

lemma char_as_int_Some [simp]: "char_as_int c = Some d \<longleftrightarrow> c = d \<and> d \<noteq> CHR 0xFF"
  by (auto simp: char_as_int_def)

lemma char_as_int_None [simp]: "char_as_int c = None \<longleftrightarrow> c = CHR 0xFF"
  by (simp add: char_as_int_def)

lemma char_as_int_id: "c \<noteq> CHR 0xFF \<Longrightarrow> char_as_int c = Some c"
  by (simp add: char_as_int_def)

lemma isdigit_None [simp]: "\<not> isdigit None"
  by (simp add: isdigit_def)

lemma isalpha_None [simp]: "\<not> isalpha None"
  by (simp add: isalpha_def)

lemma isalnum_None [simp]: "\<not> isalnum None"
  by (simp add: isalnum_def)

lemma isdigit_char_as_int [simp]: "isdigit (char_as_int c) = isdigit (Some c)"
  by (simp add: char_as_int_def isdigit_def)

lemma isalpha_char_as_int [simp]: "isalpha (char_as_int c) = isalpha (Some c)"
  by (simp add: char_as_int_def isalpha_def)

lemma isalnum_char_as_int [simp]: "isalnum (char_as_int c) = isalnum (Some c)"
  by (simp add: isalnum_def)

lemma peek_rest:
  "lexer_ok L \<Longrightarrow> peek L = (case rest_of L of [] \<Rightarrow> None | c # _ \<Rightarrow> char_as_int c)"
  by (auto simp: lexer_ok_def peek_def rest_of_def hd_drop_conv_nth split: list.splits)
     (metis Cons_nth_drop_Suc list.inject)+

lemma advance_rest: "lexer_ok L \<Longrightarrow> rest_of (snd (advance L)) = tl (rest_of L)"
  by (auto simp: lexer_ok_def rest_of_def advance_pos drop_Suc tl_drop)

lemma advance_pos_rest:
  "lexer_ok L \<Longrightarrow> pos (snd (advance L)) = (if rest_of L = [] then pos L else pos L + 1)"
  by (auto simp: lexer_ok_def rest_of_def advance_pos)

lemma skip_digits_run:
  assumes "lexer_ok L" "rest_of L = ds @ rest" "\<forall>c\<in>set ds. isdigit (Some c)"
    "rest = [] \<or> \<not> isdigit (Some (hd rest))"
  shows "pos (skip_digits L) = pos L + length ds \<and> buf (skip_digits L) = buf L
         \<and> len (skip_digits L) = len L \<and> rest_of (skip_digits L) = rest"
  using assms
proof (induction ds arbitrary: L)
  case Nil
  then have "\<not> isdigit (peek L)"
    by (cases rest) (auto simp: peek_rest)
  then show ?case using Nil by (simp add: skip_digits.simps[of L])
next
  case (Cons d ds)
  then have pk: "isdigit (peek L)" by (simp add: peek_rest)
  have "rest_of (snd (advance L)) = ds @ rest"
    using Cons.prems by (simp add: advance_rest)
  from Cons.IH[OF _ this] Cons.prems
  have "pos (skip_digits (snd (advance L))) = pos (snd (advance L)) + length ds
        \<and> buf (skip_digits (snd (advance L))) = buf L
        \<and> len (skip_digits (snd (advance L))) = len L
        \<and> rest_of (skip_digits (snd (advance L))) = rest"
    by simp
  then show ?case
    using pk Cons.prems by (simp add: skip_digits.simps[of L] advance_pos_rest)
qed

lemma isdigit_not_nul: "isdigit (Some c) \<Longrightarrow> c \<noteq> CHR 0x00"
  by (auto simp: isdigit_def)

lemma c_str_id: "\<forall>c\<in>set w. c \<noteq> CHR 0x00 \<Longrightarrow> c_str w = w"
  by (simp add: c_str_def)

lemma dup_n_prefix: "\<forall>c\<in>set w. c \<noteq> CHR 0x00 \<Longrightarrow> dup_n (w @ r) (length w) = w"
  by (simp add: dup_n_def c_str_id)

lemma isdigit_dot [simp]: "\<not> isdigit (Some CHR ''.'')"
  by (simp add: isdigit_def)

lemma scan_number_int:
  assumes "lexer_ok L" "rest_of L = ds @ rest" "\<forall>c\<in>set ds. isdigit (Some c)"
    "rest = [] \<or> \<not> isdigit (Some (hd rest))" "rest = [] \<or> hd rest \<noteq> CHR ''.''"
  shows "type (fst (scan_number L)) = TOK_CONST_INT
         \<and> lexeme (fst (scan_number L)) = Some ds
         \<and> pos (snd (scan_number L)) = pos L + length ds
         \<and> rest_of (snd (scan_number L)) = rest"
proof -
  note r = skip_digits_run[OF assms(1-4)]
  have ok: "lexer_ok (skip_digits L)" using r assms(1) by (simp add: lexer_ok_def)
  have "peek (skip_digits L) \<noteq> Some CHR ''.''"
    using assms(5) r by (cases rest) (auto simp: peek_rest[OF ok])
  moreover have "drop (pos L) (buf L) = ds @ rest" using assms(2) by (simp add: rest_of_def)
  moreover have "\<forall>c\<in>set ds. c \<noteq> CHR 0x00" using assms(3) isdigit_not_nul by blast
  ultimately show ?thesis
    using r by (simp add: scan_number_def Let_def make_def dup_n_prefix)
qed

lemma scan_number_float:
  assumes "lexer_ok L" "rest_of L = ds @ CHR ''.'' # fs @ rest2" "\<forall>c\<in>set ds. isdigit (Some c)"
    "fs \<noteq> []" "\<forall>c\<in>set fs. isdigit (Some c)" "rest2 = [] \<or> \<not> isdigit (Some (hd rest2))"
  shows "type (fst (scan_number L)) = TOK_CONST_FLOAT
         \<and> lexeme (fst (scan_number L)) = Some (ds @ CHR ''.'' # fs)
         \<and> pos (snd (scan_number L)) = pos L + length ds + 1 + length fs
         \<and> rest_of (snd (scan_number L)) = rest2"
proof -
  let ?L1 = "skip_digits L"
  let ?L2 = "snd (advance ?L1)"
  let ?L3 = "skip_digits ?L2"
  have r1: "pos ?L1 = pos L + length ds \<and> buf ?L1 = buf L \<and> len ?L1 = len L
            \<and> rest_of ?L1 = CHR ''.'' # fs @ rest2"
    using skip_digits_run[OF assms(1) assms(2) assms(3)] by simp
  have ok1: "lexer_ok ?L1" using r1 assms(1) by (simp add: lexer_ok_def)
  have pk1: "peek ?L1 = Some CHR ''.''" using r1 by (simp add: peek_rest[OF ok1])
  have ok2: "lexer_ok ?L2" using ok1 by simp
  have r2: "rest_of ?L2 = fs @ rest2" "pos ?L2 = pos L + length ds + 1" "buf ?L2 = buf L"
    using r1 ok1 by (simp_all add: advance_rest advance_pos_rest)
  have pk2: "isdigit (peek ?L2)"
    using r2(1) assms(4,5) by (cases fs) (auto simp: peek_rest[OF ok2])
  have r3: "pos ?L3 = pos ?L2 + length fs \<and> buf ?L3 = buf ?L2 \<and> len ?L3 = len ?L2
            \<and> rest_of ?L3 = rest2"
    using skip_digits_run[OF ok2 r2(1) assms(5) assms(6)] .
  have d: "drop (pos L) (buf L) = (ds @ CHR ''.'' # fs) @ rest2"
    using assms(2) by (simp add: rest_of_def)
  have nn: "\<forall>c\<in>set (ds @ CHR ''.'' # fs). c \<noteq> CHR 0x00"
    using assms(3,5) isdigit_not_nul by auto
  have "dup_n (drop (pos L) (buf L)) (length (ds @ CHR ''.'' # fs)) = ds @ CHR ''.'' # fs"
    unfolding d using nn by (rule dup_n_prefix)
  then show ?thesis
    using pk1 pk2 r2 r3 by (simp add: scan_number_def Let_def make_def)
qed

lemma scan_number_bad_float:
  assumes "lexer_ok L" "rest_of L = ds @ CHR ''.'' # rest2" "\<forall>c\<in>set ds. isdigit (Some c)"
    "rest2 = [] \<or> \<not> isdigit (Some (hd rest2))"
  shows "type (fst (scan_number L)) = TOK_UNKNOWN
         \<and> lexeme (fst (scan_number L)) = Some ''<bad_float''
         \<and> pos (snd (scan_number L)) = pos L + length ds + 1
         \<and> rest_of (snd (scan_number L)) = rest2"
proof -
  let ?L1 = "skip_digits L"
  let ?L2 = "snd (advance ?L1)"
  have r1: "pos ?L1 = pos L + length ds \<and> buf ?L1 = buf L \<and> len ?L1 = len L
            \<and> rest_of ?L1 = CHR ''.'' # rest2"
    using skip_digits_run[OF assms(1) assms(2) assms(3)] by simp
  have ok1: "lexer_ok ?L1" using r1 assms(1) by (simp add: lexer_ok_def)
  have pk1: "peek ?L1 = Some CHR ''.''" using r1 by (simp add: peek_rest[OF ok1])
  have ok2: "lexer_ok ?L2" using ok1 by simp
  have r2: "rest_of ?L2 = rest2" "pos ?L2 = pos L + length ds + 1"
    using r1 ok1 by (simp_all add: advance_rest advance_pos_rest)
  have pk2: "\<not> isdigit (peek ?L2)"
    using r2(1) assms(4) by (cases rest2) (auto simp: peek_rest[OF ok2])
  show ?thesis
    using pk1 pk2 r2 by (simp add: scan_number_def Let_def make_def dup_n_def c_str_def)
qed

text \<open>
  Claim C8. At a position whose remaining input is a non-empty maximal digit run \<open>ds\<close>
  followed by \<open>rest\<close>, \<open>scan_number\<close> returns \<open>const_int\<close> with lexeme \<open>ds\<close> when
  \<open>rest\<close> does not start with a dot; \<open>const_float\<close> with lexeme \<open>ds.fs\<close> when \<open>rest\<close>
  is a dot and a non-empty maximal digit run \<open>fs\<close>; and an \<open>unknown\<close> token, whose lexeme
  is the ten-character tag \<open><bad_float\<close>, when the dot is not followed by a digit. In
  each case the cursor stops right behind the consumed text.
\<close>

theorem scan_number_spec:
  assumes "len L = length (buf L)"
    and "drop (pos L) (buf L) = ds @ rest"
    and "ds \<noteq> []"
    and "\<forall>c\<in>set ds. isdigit (Some c)"
    and "rest = [] \<or> \<not> isdigit (Some (hd rest))"
  shows "(rest = [] \<or> hd rest \<noteq> CHR ''.'' \<longrightarrow>
            type (fst (scan_number L)) = TOK_CONST_INT
          \<and> lexeme (fst (scan_number L)) = Some ds
          \<and> drop (pos (snd (scan_number L))) (buf (snd (scan_number L))) = rest)
       \<and> (\<forall>fs rest2.
            rest = CHR ''.'' # fs @ rest2 \<and> fs \<noteq> [] \<and> (\<forall>c\<in>set fs. isdigit (Some c))
            \<and> (rest2 = [] \<or> \<not> isdigit (Some (hd rest2))) \<longrightarrow>
              type (fst (scan_number L)) = TOK_CONST_FLOAT
            \<and> lexeme (fst (scan_number L)) = Some (ds @ CHR ''.'' # fs)
            \<and> drop (pos (snd (scan_number L))) (buf (snd (scan_number L))) = rest2)
       \<and> (\<forall>rest2.
            rest = CHR ''.'' # rest2 \<and> (rest2 = [] \<or> \<not> isdigit (Some (hd rest2))) \<longrightarrow>
              type (fst (scan_number L)) = TOK_UNKNOWN
            \<and> lexeme (fst (scan_number L)) = Some ''<bad_float''
            \<and> drop (pos (snd (scan_number L))) (buf (snd (scan_number L))) = rest2)"
proof -
  have ok: "lexer_ok L" using assms(1) by (simp add: lexer_ok_def)
  have r: "rest_of L = ds @ rest" using assms(2) by (simp add: rest_of_def)
  have a: "rest = [] \<or> hd rest \<noteq> CHR ''.'' \<Longrightarrow>
            type (fst (scan_number L)) = TOK_CONST_INT
          \<and> lexeme (fst (scan_number L)) = Some ds
          \<and> rest_of (snd (scan_number L)) = rest"
    using scan_number_int[OF ok r assms(4) assms(5)] by simp
  have b: "type (fst (scan_number L)) = TOK_CONST_FLOAT
            \<and> lexeme (fst (scan_number L)) = Some (ds @ CHR ''.'' # fs)
            \<and> rest_of (snd (scan_number L)) = rest2"
    if "rest = CHR ''.'' # fs @ rest2" "fs \<noteq> []" "\<forall>c\<in>set fs. isdigit (Some c)"
       "rest2 = [] \<or> \<not> isdigit (Some (hd rest2))" for fs rest2
    using scan_number_float[OF ok _ assms(4) that(2) that(3) that(4)] r that(1) by simp
  have c: "type (fst (scan_number L)) = TOK_UNKNOWN
            \<and> lexeme (fst (scan_number L)) = Some ''<bad_float''
            \<and> rest_of (snd (scan_number L)) = rest2"
    if "rest = CHR ''.'' # rest2" "rest2 = [] \<or> \<not> isdigit (Some (hd rest2))" for rest2
    using scan_number_bad_float[OF ok _ assms(4) that(2)] r that(1) by simp
  show ?thesis
    using a b c unfolding rest_of_def by blast
qed

theorem scan_number_spec_witness:
  "type (fst (scan_number (init_lexer ''12.5x''))) = TOK_CONST_FLOAT
   \<and> lexeme (fst (scan_number (init_lexer ''12.5x''))) = Some ''12.5''
   \<and> type (fst (scan_number (init_lexer ''12+''))) = TOK_CONST_INT
   \<and> lexeme (fst (scan_number (init_lexer ''12+''))) = Some ''12''
   \<and> type (fst (scan_number (init_lexer ''12.x''))) = TOK_UNKNOWN
   \<and> lexeme (fst (scan_number (init_lexer ''12.x''))) = Some ''<bad_float''"
proof -
  have d: "\<forall>c\<in>set ''12''. isdigit (Some c)" "\<forall>c\<in>set ''5''. isdigit (Some c)"
    by (simp_all add: isdigit_def)
  have n: "\<not> isdigit (Some CHR ''x'')" "\<not> isdigit (Some CHR ''+'')"
    by (simp_all add: isdigit_def)
  have 1: "type (fst (scan_number (init_lexer ''12.5x''))) = TOK_CONST_FLOAT
     \<and> lexeme (fst (scan_number (init_lexer ''12.5x''))) = Some ''12.5''"
    using scan_number_spec[of "init_lexer ''12.5x''" "''12''" "''.5x''",
        THEN conjunct2, THEN conjunct1, THEN spec, THEN spec, of "''5''" "''x''"] d n
    by (simp add: init_lexer_def)
  have 2: "type (fst (scan_number (init_lexer ''12+''))) = TOK_CONST_INT
     \<and> lexeme (fst (scan_number (init_lexer ''12+''))) = Some ''12''"
    using scan_number_spec[of "init_lexer ''12+''" "''12''" "''+''", THEN conjunct1] d n
    by (simp add: init_lexer_def)
  have 3: "type (fst (scan_number (init_lexer ''12.x''))) = TOK_UNKNOWN
     \<and> lexeme (fst (scan_number (init_lexer ''12.x''))) = Some ''<bad_float''"
    using scan_number_spec[of "init_lexer ''12.x''" "''12''" "''.x''",
        THEN conjunct2, THEN conjunct2, THEN spec, of "''x''"] d n
    by (simp add: init_lexer_def)
  show ?thesis using 1 2 3 by simp
qed

subsection \<open>The scanning loops move forward\<close>

lemma advance_mono: "pos L \<le> pos (snd (advance L))"
  by (simp add: advance_pos)

lemma advance_pair: "advance L = (peek L, snd (advance L))"
  by (metis advance_fst prod.collapse)

lemma peek_advance_less: "peek L \<noteq> None \<Longrightarrow> pos L < pos (snd (advance L))"
  by (simp add: advance_pos peek_def split: if_splits)

lemma match_len [simp]: "len (snd (match L c)) = len L"
  by (simp add: match_def)

lemma match_mono: "pos L \<le> pos (snd (match L c))"
  by (simp add: match_def advance_pos)

lemma skip_ws_mono: "len (skip_ws L) = len L \<and> pos L \<le> pos (skip_ws L)"
proof (induction L rule: skip_ws.induct)
  case (1 L)
  show ?case
  proof (cases "peek L = Some CHR '' '' \<or> peek L = Some CHR 0x09 \<or> peek L = Some CHR 0x0D
                \<or> peek L = Some CHR 0x0A")
    case True
    with 1 have "len (skip_ws (snd (advance L))) = len (snd (advance L))
        \<and> pos (snd (advance L)) \<le> pos (skip_ws (snd (advance L)))" by simp
    with True show ?thesis
      using advance_mono[of L] by (simp add: skip_ws.simps[of L])
  next
    case False
    then show ?thesis by (simp add: skip_ws.simps[of L])
  qed
qed

lemma skip_ws_buf: "buf (skip_ws L) = buf L"
proof (induction L rule: skip_ws.induct)
  case (1 L)
  show ?case
  proof (cases "peek L = Some CHR '' '' \<or> peek L = Some CHR 0x09 \<or> peek L = Some CHR 0x0D
                \<or> peek L = Some CHR 0x0A")
    case True
    with 1 have "buf (skip_ws (snd (advance L))) = buf (snd (advance L))" by simp
    with True show ?thesis by (simp add: skip_ws.simps[of L])
  next
    case False
    then show ?thesis by (simp add: skip_ws.simps[of L])
  qed
qed

lemma peek_None_end:
  assumes "peek L = None" "len L = length (buf L)" "CHR 0xFF \<notin> set (buf L)"
  shows "len L \<le> pos L"
proof (rule ccontr)
  assume "\<not> len L \<le> pos L"
  then have lt: "pos L < length (buf L)" using assms(2) by simp
  then have "buf L ! pos L = CHR 0xFF" using assms(1,2) by (simp add: peek_def)
  then show False using assms(3) lt nth_mem by metis
qed

lemma skip_digits_mono: "len (skip_digits L) = len L \<and> pos L \<le> pos (skip_digits L)"
proof (induction L rule: skip_digits.induct)
  case (1 L)
  show ?case
  proof (cases "isdigit (peek L)")
    case True
    with 1 show ?thesis
      using advance_mono[of L] by (simp add: skip_digits.simps[of L])
  next
    case False
    then show ?thesis by (simp add: skip_digits.simps[of L])
  qed
qed

lemma skip_word_mono: "len (skip_word L) = len L \<and> pos L \<le> pos (skip_word L)"
proof (induction L rule: skip_word.induct)
  case (1 L)
  show ?case
  proof (cases "isalnum (peek L) \<or> peek L = Some CHR ''_''")
    case True
    with 1 show ?thesis
      using advance_mono[of L] by (simp add: skip_word.simps[of L])
  next
    case False
    then show ?thesis by (simp add: skip_word.simps[of L])
  qed
qed

lemma skip_line_mono: "len (skip_line L) = len L \<and> pos L \<le> pos (skip_line L)"
proof (induction L rule: skip_line.induct)
  case (1 L)
  show ?case
  proof (cases "peek L \<noteq> None \<and> peek L \<noteq> Some CHR 0x0A")
    case True
    with 1 show ?thesis
      using advance_mono[of L] by (simp add: skip_line.simps[of L])
  next
    case False
    then show ?thesis by (auto simp: skip_line.simps[of L])
  qed
qed

lemma block_comment_loop_unfold:
  "block_comment_loop L prev col0 =
     (case peek L of
        None \<Rightarrow> (make (snd (advance L)) TOK_UNKNOWN (Some ''<unterminated_comment>'') 22 None,
                 snd (advance L))
      | Some cur \<Rightarrow>
          if prev = CHR ''*'' \<and> cur = CHR ''/'' then
            ((make (snd (advance L)) TOK_COMMENT (Some ''/* */'') 5 None)\<lparr>tok_col := col0\<rparr>,
             snd (advance L))
          else block_comment_loop (snd (advance L)) cur col0)"
  by (subst block_comment_loop.simps, subst advance_pair) (simp split: option.splits)

lemma block_comment_loop_mono:
  "len (snd (block_comment_loop L prev col0)) = len L
   \<and> pos L \<le> pos (snd (block_comment_loop L prev col0))"
proof (induction L prev col0 rule: block_comment_loop.induct)
  case (1 L prev col0)
  show ?case
  proof (cases "peek L")
    case None
    then show ?thesis
      using advance_mono[of L] by (simp add: block_comment_loop_unfold[of L])
  next
    case (Some cur)
    show ?thesis
    proof (cases "prev = CHR ''*'' \<and> cur = CHR ''/''")
      case True
      with Some show ?thesis
        using advance_mono[of L] by (simp add: block_comment_loop_unfold[of L])
    next
      case False
      have "advance L = (Some cur, snd (advance L))"
        using Some advance_pair[of L] by simp
      from "1.IH"[OF this[symmetric] refl False]
      show ?thesis
        using Some False advance_mono[of L]
        by (auto simp: block_comment_loop_unfold[of L prev])
    qed
  qed
qed

lemma block_comment_loop_type:
  "type (fst (block_comment_loop L prev col0)) = TOK_UNKNOWN
   \<or> (type (fst (block_comment_loop L prev col0)) = TOK_COMMENT
      \<and> lexeme (fst (block_comment_loop L prev col0)) = Some ''/* */''
      \<and> extra (fst (block_comment_loop L prev col0)) = None)"
proof (induction L prev col0 rule: block_comment_loop.induct)
  case (1 L prev col0)
  show ?case
  proof (cases "peek L")
    case None
    then show ?thesis
      by (simp add: block_comment_loop_unfold[of L] make_def)
  next
    case (Some cur)
    show ?thesis
    proof (cases "prev = CHR ''*'' \<and> cur = CHR ''/''")
      case True
      with Some show ?thesis
        by (simp add: block_comment_loop_unfold[of L] make_def dup_n_def c_str_def)
    next
      case False
      have "advance L = (Some cur, snd (advance L))"
        using Some advance_pair[of L] by simp
      from "1.IH"[OF this[symmetric] refl False]
      show ?thesis
        using Some False by (auto simp: block_comment_loop_unfold[of L prev])
    qed
  qed
qed


subsection \<open>Every scanner consumes at least one character\<close>

lemma scan_string_loop_props:
  "len (snd (scan_string_loop L p col0)) = len L
   \<and> pos L \<le> pos (snd (scan_string_loop L p col0))
   \<and> (type (fst (scan_string_loop L p col0)) = TOK_UNKNOWN
      \<or> type (fst (scan_string_loop L p col0)) = TOK_CONST_STRING)"
proof (induction L p col0 rule: scan_string_loop.induct)
  case (1 L p col0)
  show ?case
  proof (cases "peek L")
    case None
    then show ?thesis by (simp add: scan_string_loop.simps[of L] make_def)
  next
    case (Some c)
    consider (esc) "c = CHR 0x5C" | (quote) "c \<noteq> CHR 0x5C" "c = CHR 0x22"
      | (nl) "c \<noteq> CHR 0x5C" "c \<noteq> CHR 0x22" "c = CHR 0x0A"
      | (other) "c \<noteq> CHR 0x5C" "c \<noteq> CHR 0x22" "c \<noteq> CHR 0x0A"
      by blast
    then show ?thesis
    proof cases
      case esc
      let ?L1 = "snd (advance L)"
      let ?L2 = "if peek ?L1 \<noteq> None then snd (advance ?L1) else ?L1"
      have ih: "len (snd (scan_string_loop ?L2 p col0)) = len ?L2
        \<and> pos ?L2 \<le> pos (snd (scan_string_loop ?L2 p col0))
        \<and> (type (fst (scan_string_loop ?L2 p col0)) = TOK_UNKNOWN
           \<or> type (fst (scan_string_loop ?L2 p col0)) = TOK_CONST_STRING)"
        using "1.IH"(1)[OF Some esc refl refl] .
      have m: "len ?L2 = len L" "pos L \<le> pos ?L2"
        using advance_mono[of L] advance_mono[of ?L1] by auto
      have "scan_string_loop L p col0 = scan_string_loop ?L2 p col0"
        using Some esc by (simp add: scan_string_loop.simps[of L] Let_def)
      then show ?thesis using ih m by auto
    next
      case quote
      then show ?thesis
        using Some advance_mono[of L]
        by (simp add: scan_string_loop.simps[of L] Let_def make_def)
    next
      case nl
      then show ?thesis
        using Some by (simp add: scan_string_loop.simps[of L] Let_def make_def)
    next
      case other
      have ih: "len (snd (scan_string_loop (snd (advance L)) p col0)) = len (snd (advance L))
        \<and> pos (snd (advance L)) \<le> pos (snd (scan_string_loop (snd (advance L)) p col0))
        \<and> (type (fst (scan_string_loop (snd (advance L)) p col0)) = TOK_UNKNOWN
           \<or> type (fst (scan_string_loop (snd (advance L)) p col0)) = TOK_CONST_STRING)"
        using "1.IH"(2)[OF Some other] .
      have "scan_string_loop L p col0 = scan_string_loop (snd (advance L)) p col0"
        using Some other by (simp add: scan_string_loop.simps[of L] Let_def)
      then show ?thesis using ih advance_mono[of L] by auto
    qed
  qed
qed

lemma scan_string_props:
  "len (snd (scan_string L)) = len L
   \<and> (peek L \<noteq> None \<longrightarrow> pos L < pos (snd (scan_string L)))
   \<and> (type (fst (scan_string L)) = TOK_UNKNOWN \<or> type (fst (scan_string L)) = TOK_CONST_STRING)"
  using scan_string_loop_props[of "snd (advance L)" "pos (snd (advance L))" "col L"]
    peek_advance_less[of L]
  by (auto simp: scan_string_def Let_def)

lemma scan_char_props:
  "len (snd (scan_char L)) = len L
   \<and> (peek L \<noteq> None \<longrightarrow> pos L < pos (snd (scan_char L)))
   \<and> (type (fst (scan_char L)) = TOK_UNKNOWN \<or> type (fst (scan_char L)) = TOK_CONST_CHAR)"
proof -
  let ?L1 = "snd (advance L)"
  let ?L2 = "snd (advance ?L1)"
  let ?L3 = "if peek ?L1 = Some CHR 0x5C then snd (advance ?L2) else ?L2"
  have m: "pos ?L1 \<le> pos ?L2" "pos ?L2 \<le> pos ?L3" "pos ?L3 \<le> pos (snd (advance ?L3))"
    "len ?L3 = len L"
    using advance_mono[of ?L1] advance_mono[of ?L2] advance_mono[of ?L3] by auto
  have e: "scan_char L =
     (if peek ?L3 = Some CHR 0x27 then
        ((make (snd (advance ?L3)) TOK_CONST_CHAR (Some ''<char>'') 6 None)\<lparr>tok_col := col L\<rparr>,
         snd (advance ?L3))
      else (make ?L3 TOK_UNKNOWN (Some ''<unterminated_char>'') 20 None, ?L3))"
    by (simp add: scan_char_def Let_def split_def advance_fst)
  show ?thesis
    unfolding e using m peek_advance_less[of L] by (auto simp: make_def)
qed

lemma scan_number_props:
  "len (snd (scan_number L)) = len L
   \<and> (isdigit (peek L) \<longrightarrow> pos L < pos (snd (scan_number L)))
   \<and> type (fst (scan_number L)) \<in> {TOK_UNKNOWN, TOK_CONST_FLOAT, TOK_CONST_INT}"
proof -
  let ?L1 = "skip_digits L"
  let ?L2 = "snd (advance ?L1)"
  let ?L3 = "skip_digits ?L2"
  have s: "isdigit (peek L) \<Longrightarrow> pos L < pos ?L1"
    using skip_digits_mono[of "snd (advance L)"] peek_advance_less[of L]
    by (cases "peek L") (auto simp: skip_digits.simps[of L] isdigit_def)
  have m: "len ?L1 = len L" "len ?L3 = len L" "pos ?L1 \<le> pos ?L2" "pos ?L2 \<le> pos ?L3"
    using skip_digits_mono[of L] skip_digits_mono[of ?L2] advance_mono[of ?L1] by auto
  show ?thesis
    using s m by (auto simp: scan_number_def Let_def make_def)
qed

lemma scan_identifier_or_keyword_props:
  "len (snd (scan_identifier_or_keyword L)) = len L
   \<and> (peek L \<noteq> None \<longrightarrow> pos L < pos (snd (scan_identifier_or_keyword L)))
   \<and> type (fst (scan_identifier_or_keyword L)) \<in>
       {TOK_CONST_BOOL, TOK_OP_ARITH, TOK_RESERVED_TYPE, TOK_KEYWORD, TOK_NOISE, TOK_IDENTIFIER}"
proof -
  have "pos L \<le> pos (skip_word (snd (advance L)))" "len (skip_word (snd (advance L))) = len L"
    "peek L \<noteq> None \<Longrightarrow> pos L < pos (skip_word (snd (advance L)))"
    using skip_word_mono[of "snd (advance L)"] advance_mono[of L] peek_advance_less[of L]
    by auto
  then show ?thesis
    by (simp add: scan_identifier_or_keyword_def Let_def make_def)
qed

lemma match_pair: "match L c = (peek L = Some c, if peek L = Some c then snd (advance L) else L)"
  by (simp add: match_def)

lemma scan_slash_props:
  "len (snd (scan_slash_comment_or_op L)) = len L
   \<and> (peek L \<noteq> None \<longrightarrow> pos L < pos (snd (scan_slash_comment_or_op L)))
   \<and> type (fst (scan_slash_comment_or_op L)) \<in> {TOK_COMMENT, TOK_UNKNOWN, TOK_OP_ARITH}
   \<and> (type (fst (scan_slash_comment_or_op L)) = TOK_COMMENT \<longrightarrow>
        (lexeme (fst (scan_slash_comment_or_op L)) = Some ''//''
         \<or> lexeme (fst (scan_slash_comment_or_op L)) = Some ''/* */'')
        \<and> extra (fst (scan_slash_comment_or_op L)) = None)"
proof (cases "peek L = Some CHR ''/''")
  case False
  then show ?thesis
    using peek_advance_less[of L]
    by (auto simp: scan_slash_comment_or_op_def Let_def match_pair make_def
        split_def advance_fst)
next
  case True
  let ?L1 = "snd (advance L)"
  have p1: "pos L < pos ?L1" using True peek_advance_less[of L] by simp
  show ?thesis
  proof (cases "peek ?L1 = Some CHR ''/''")
    case l: True
    let ?L3 = "skip_line (snd (advance ?L1))"
    have "pos ?L1 \<le> pos ?L3" "len ?L3 = len L"
      using skip_line_mono[of "snd (advance ?L1)"] advance_mono[of ?L1] by auto
    then show ?thesis
      using True l p1
      by (simp add: scan_slash_comment_or_op_def Let_def match_pair make_def dup_n_def c_str_def)
  next
    case nl: False
    show ?thesis
    proof (cases "peek ?L1 = Some CHR ''*''")
      case b: True
      let ?L3 = "snd (advance ?L1)"
      have e: "scan_slash_comment_or_op L = block_comment_loop ?L3 (CHR 0x00) (col L)"
        using True nl b by (simp add: scan_slash_comment_or_op_def Let_def match_pair)
      have "pos ?L1 \<le> pos ?L3" by (rule advance_mono)
      then show ?thesis
        unfolding e
        using block_comment_loop_mono[of ?L3 "CHR 0x00" "col L"]
          block_comment_loop_type[of ?L3 "CHR 0x00" "col L"] p1
        by auto
    next
      case nb: False
      then show ?thesis
        using True nl p1
        by (simp add: scan_slash_comment_or_op_def Let_def match_pair make_def)
    qed
  qed
qed

lemma scan_operator_props:
  "len (snd (scan_operator L)) = len L
   \<and> (peek L \<noteq> None \<longrightarrow> pos L < pos (snd (scan_operator L)))
   \<and> type (fst (scan_operator L)) \<in>
       {TOK_OP_REL, TOK_OP_LOGIC, TOK_OP_ARITH, TOK_ASSIGN, TOK_UNKNOWN}"
proof -
  let ?L1 = "snd (advance L)"
  have m: "peek L \<noteq> None \<Longrightarrow> pos L < pos ?L1" "pos ?L1 \<le> pos (snd (advance ?L1))"
    using peek_advance_less[of L] advance_mono[of ?L1] by auto
  show ?thesis
    using m by (auto simp: scan_operator_def Let_def split_def advance_fst match_pair make_def)
qed

subsection \<open>The scanning loop of main\<close>

lemma next_token_props:
  "len (snd (next_token L)) = len L
   \<and> (type (fst (next_token L)) = TOK_EOF \<longrightarrow>
        snd (next_token L) = skip_ws L \<and> peek (skip_ws L) = None)
   \<and> (type (fst (next_token L)) \<noteq> TOK_EOF \<longrightarrow>
        pos L < pos (snd (next_token L)) \<and> pos L < len L)
   \<and> (type (fst (next_token L)) = TOK_COMMENT \<longrightarrow>
        (lexeme (fst (next_token L)) = Some ''//''
         \<or> lexeme (fst (next_token L)) = Some ''/* */'')
        \<and> extra (fst (next_token L)) = None)"
proof -
  let ?L = "skip_ws L"
  have w: "len ?L = len L" "pos L \<le> pos ?L" using skip_ws_mono[of L] by auto
  show ?thesis
  proof (cases "peek ?L")
    case None
    with w show ?thesis by (simp add: next_token_def Let_def make_def)
  next
    case (Some c)
    then have lt: "pos ?L < len ?L" by (simp add: peek_def split: if_splits)
    have adv: "pos ?L < pos (snd (advance ?L))" using Some peek_advance_less[of ?L] by simp
    have pn: "peek ?L \<noteq> None" using Some by simp
    consider (delim) "is_delim (peek ?L)"
      | (bracket) "\<not> is_delim (peek ?L)" "is_bracket (peek ?L)"
      | (word) "\<not> is_delim (peek ?L)" "\<not> is_bracket (peek ?L)"
          "isalpha (peek ?L) \<or> peek ?L = Some CHR ''_''"
      | (num) "\<not> is_delim (peek ?L)" "\<not> is_bracket (peek ?L)"
          "\<not> (isalpha (peek ?L) \<or> peek ?L = Some CHR ''_'')" "isdigit (peek ?L)"
      | (str) "\<not> is_delim (peek ?L)" "\<not> is_bracket (peek ?L)"
          "\<not> (isalpha (peek ?L) \<or> peek ?L = Some CHR ''_'')" "\<not> isdigit (peek ?L)"
          "peek ?L = Some CHR 0x22"
      | (chr) "\<not> is_delim (peek ?L)" "\<not> is_bracket (peek ?L)"
          "\<not> (isalpha (peek ?L) \<or> peek ?L = Some CHR ''_'')" "\<not> isdigit (peek ?L)"
          "peek ?L \<noteq> Some CHR 0x22" "peek ?L = Some CHR 0x27"
      | (slash) "\<not> is_delim (peek ?L)" "\<not> is_bracket (peek ?L)"
          "\<not> (isalpha (peek ?L) \<or> peek ?L = Some CHR ''_'')" "\<not> isdigit (peek ?L)"
          "peek ?L \<noteq> Some CHR 0x22" "peek ?L \<noteq> Some CHR 0x27" "peek ?L = Some CHR ''/''"
      | (other) "\<not> is_delim (peek ?L)" "\<not> is_bracket (peek ?L)"
          "\<not> (isalpha (peek ?L) \<or> peek ?L = Some CHR ''_'')" "\<not> isdigit (peek ?L)"
          "peek ?L \<noteq> Some CHR 0x22" "peek ?L \<noteq> Some CHR 0x27" "peek ?L \<noteq> Some CHR ''/''"
      by blast
    then show ?thesis
    proof cases
      case delim
      then have "next_token L =
        (make (snd (advance ?L)) TOK_DELIM (Some (char_buf (peek ?L))) 1 (Some (char_buf (peek ?L))),
         snd (advance ?L))"
        using Some by (simp add: next_token_def Let_def split_def advance_fst)
      then show ?thesis using w adv lt by (simp add: make_def)
    next
      case bracket
      then have "next_token L =
        (make (snd (advance ?L)) TOK_BRACKET (Some (char_buf (peek ?L))) 1
           (Some (char_buf (peek ?L))),
         snd (advance ?L))"
        using Some by (simp add: next_token_def Let_def split_def advance_fst)
      then show ?thesis using w adv lt by (simp add: make_def)
    next
      case word
      then have "next_token L = scan_identifier_or_keyword ?L"
        using Some by (simp add: next_token_def Let_def)
      then show ?thesis
        using w lt pn scan_identifier_or_keyword_props[of ?L] by auto
    next
      case num
      then have "next_token L = scan_number ?L"
        using Some by (simp add: next_token_def Let_def)
      then show ?thesis
        using w lt pn num(4) scan_number_props[of ?L] by auto
    next
      case str
      then have "next_token L = scan_string ?L"
        using Some by (simp add: next_token_def Let_def)
      then show ?thesis
        using w lt pn scan_string_props[of ?L] by auto
    next
      case chr
      then have "next_token L = scan_char ?L"
        using Some by (simp add: next_token_def Let_def)
      then show ?thesis
        using w lt pn scan_char_props[of ?L] by auto
    next
      case slash
      then have "next_token L = scan_slash_comment_or_op ?L"
        using Some by (simp add: next_token_def Let_def)
      then show ?thesis
        using w lt pn scan_slash_props[of ?L] by auto
    next
      case other
      show ?thesis
      proof (cases "peek ?L = Some CHR ''*'' \<or> peek ?L = Some CHR ''+'' \<or> peek ?L = Some CHR ''-''
                 \<or> peek ?L = Some CHR ''%'' \<or> peek ?L = Some CHR ''='' \<or> peek ?L = Some CHR ''<''
                 \<or> peek ?L = Some CHR ''>'' \<or> peek ?L = Some CHR ''!'' \<or> peek ?L = Some CHR ''&''
                 \<or> peek ?L = Some CHR ''|''")
        case True
        then have "next_token L = scan_operator ?L"
          using other Some by (simp add: next_token_def Let_def)
        then show ?thesis
          using w lt pn scan_operator_props[of ?L] by auto
      next
        case False
        then have "next_token L =
          (make (snd (advance ?L)) TOK_UNKNOWN (Some (char_buf (peek ?L))) 1 None,
           snd (advance ?L))"
          using other Some by (simp add: next_token_def Let_def)
        then show ?thesis using w adv lt by (simp add: make_def)
      qed
    qed
  qed
qed

function scan_all :: "Lexer \<Rightarrow> Token list" where
  "scan_all L =
     (let (t, L1) = next_token L in
      if type t = TOK_EOF then [t] else t # scan_all L1)"
  by pat_completeness auto
termination
proof (relation "measure (\<lambda>L. len L - pos L)")
  show "wf (measure (\<lambda>L. len L - pos L))" by simp
next
  fix L :: Lexer and x t L1
  assume "x = next_token L" "(t, L1) = x" "type t \<noteq> TOK_EOF"
  then have "type (fst (next_token L)) \<noteq> TOK_EOF" "L1 = snd (next_token L)"
    by (metis fst_conv, metis snd_conv)
  then show "(L1, L) \<in> measure (\<lambda>L. len L - pos L)"
    using next_token_props[of L] by auto
qed

declare scan_all.simps [simp del]

lemma scan_all_unfold:
  "scan_all L =
     (if type (fst (next_token L)) = TOK_EOF then [fst (next_token L)]
      else fst (next_token L) # scan_all (snd (next_token L)))"
  by (subst scan_all.simps) (simp add: split_def Let_def)

lemma scan_all_props:
  "scan_all L \<noteq> [] \<and> type (last (scan_all L)) = TOK_EOF
   \<and> (\<forall>t\<in>set (butlast (scan_all L)). type t \<noteq> TOK_EOF)
   \<and> length (scan_all L) \<le> Suc (len L - pos L)"
proof (induction L rule: scan_all.induct)
  case (1 L)
  show ?case
  proof (cases "type (fst (next_token L)) = TOK_EOF")
    case True
    then show ?thesis by (simp add: scan_all_unfold[of L])
  next
    case False
    let ?L1 = "snd (next_token L)"
    have ih: "scan_all ?L1 \<noteq> [] \<and> type (last (scan_all ?L1)) = TOK_EOF
      \<and> (\<forall>t\<in>set (butlast (scan_all ?L1)). type t \<noteq> TOK_EOF)
      \<and> length (scan_all ?L1) \<le> Suc (len ?L1 - pos ?L1)"
      using "1.IH"[OF refl prod.collapse False] .
    have "len ?L1 = len L" "pos L < pos ?L1" "pos L < len L"
      using next_token_props[of L] False by auto
    then have "Suc (len ?L1 - pos ?L1) \<le> len L - pos L" by simp
    with ih False show ?thesis by (simp add: scan_all_unfold[of L])
  qed
qed

lemma next_token_eof_end:
  assumes "type (fst (next_token L)) = TOK_EOF" "len L = length (buf L)"
    "CHR 0xFF \<notin> set (buf L)"
  shows "len (snd (next_token L)) \<le> pos (snd (next_token L))"
proof -
  have e: "snd (next_token L) = skip_ws L" "peek (skip_ws L) = None"
    using next_token_props[of L] assms(1) by auto
  have "len (skip_ws L) = length (buf (skip_ws L))" "CHR 0xFF \<notin> set (buf (skip_ws L))"
    using assms(2,3) skip_ws_mono[of L] by (simp_all add: skip_ws_buf)
  from peek_None_end[OF e(2) this] show ?thesis by (simp add: e(1))
qed

text \<open>
  Claim C3. Every call of \<open>next_token\<close> that returns a token other than \<open>eof\<close> moves
  the cursor strictly forward. The scanning loop of \<open>main\<close> (\<open>scan_all\<close>, a total
  function) therefore ends after at most one call per remaining character plus one, and
  the last token it produces, and only the last, has kind \<open>eof\<close>; this holds for every
  buffer. \<open>peek\<close> reads a buffer byte as a \<open>char\<close>, so the byte \<open>0xFF\<close> has the value
  of \<open>EOF\<close> and ends the scan where it stands. On a buffer without that byte (the input
  alphabet is ASCII) an \<open>eof\<close> token is returned only with the cursor at the end of the
  input: every call returns \<open>eof\<close> at the end of the input or moves the cursor strictly
  forward.
\<close>

theorem next_token_progress:
  "(type (fst (next_token L)) \<noteq> TOK_EOF \<longrightarrow> pos L < pos (snd (next_token L)))
   \<and> (len L = length (buf L) \<and> CHR 0xFF \<notin> set (buf L) \<longrightarrow>
        type (fst (next_token L)) = TOK_EOF
          \<and> len (snd (next_token L)) \<le> pos (snd (next_token L))
        \<or> pos L < pos (snd (next_token L)))
   \<and> scan_all L \<noteq> []
   \<and> type (last (scan_all L)) = TOK_EOF
   \<and> (\<forall>t\<in>set (butlast (scan_all L)). type t \<noteq> TOK_EOF)
   \<and> length (scan_all L) \<le> Suc (len L - pos L)"
  using next_token_props[of L] scan_all_props[of L] next_token_eof_end[of L] by blast

theorem next_token_progress_witness:
  "(type (fst (next_token (init_lexer ''x = 1;''))) = TOK_EOF
      \<and> len (snd (next_token (init_lexer ''x = 1;'')))
          \<le> pos (snd (next_token (init_lexer ''x = 1;'')))
    \<or> 0 < pos (snd (next_token (init_lexer ''x = 1;''))))
   \<and> scan_all (init_lexer ''x = 1;'') \<noteq> []
   \<and> type (last (scan_all (init_lexer ''x = 1;''))) = TOK_EOF
   \<and> length (scan_all (init_lexer ''x = 1;'')) \<le> 7"
  using next_token_progress[of "init_lexer ''x = 1;''"] by (simp add: init_lexer_def)






subsection \<open>Word classification\<close>

lemma of_char_less_256: "(of_char c :: nat) < 256"
  by (cases c) simp

lemma of_char_eq_char: "(of_char d :: nat) = n \<Longrightarrow> ((of_char c :: nat) = n) = (c = d)"
  by auto

lemma lowerc_iff:
  "lowerc c = d \<longleftrightarrow>
     (if (65::nat) \<le> of_char c \<and> of_char c \<le> (90::nat)
      then (of_char c :: nat) + 32 = of_char d else c = d)"
  using of_char_less_256[of c] of_char_less_256[of d]
  by (auto simp: lowerc_def char_of_eq_iff take_bit_eq_mod)

lemma lowerc_lower:
  assumes "(of_char d :: nat) = n + 32" "(of_char u :: nat) = n" "65 \<le> n" "n \<le> 90"
  shows "lowerc c = d \<longleftrightarrow> c = d \<or> c = u"
proof -
  have "(of_char c :: nat) = n \<longleftrightarrow> c = u" using assms(2) by auto
  moreover have "c = d \<Longrightarrow> \<not> ((65::nat) \<le> of_char c \<and> of_char c \<le> (90::nat))"
    using assms by auto
  ultimately show ?thesis
    using assms by (auto simp: lowerc_iff)
qed

lemma lowerc_t: "lowerc c = CHR ''t'' \<longleftrightarrow> c = CHR ''t'' \<or> c = CHR ''T''"
  by (rule lowerc_lower[of _ 84]) simp_all

lemma lowerc_f: "lowerc c = CHR ''f'' \<longleftrightarrow> c = CHR ''f'' \<or> c = CHR ''F''"
  by (rule lowerc_lower[of _ 70]) simp_all

lemma length4_conv: "length w = 4 \<longleftrightarrow> (\<exists>a b c d. w = [a, b, c, d])"
proof
  assume "length w = 4"
  then have "length w = Suc (Suc (Suc (Suc 0)))" by simp
  then show "\<exists>a b c d. w = [a, b, c, d]"
    by (auto simp: length_Suc_conv)
qed auto

lemma length5_conv: "length w = 5 \<longleftrightarrow> (\<exists>a b c d e. w = [a, b, c, d, e])"
proof
  assume "length w = 5"
  then have "length w = Suc (Suc (Suc (Suc (Suc 0))))" by simp
  then show "\<exists>a b c d e. w = [a, b, c, d, e]"
    by (auto simp: length_Suc_conv)
qed auto

lemma is_bool_lit4:
  "is_bool_lit ([a, b, c, d] @ rest) (length [a, b, c, d]) \<noteq> - 1 \<longleftrightarrow>
     [a, b, c, d] \<in> {''true'', ''True'', ''false'', ''False''}"
proof -
  have "is_bool_lit ([a, b, c, d] @ rest) (length [a, b, c, d]) \<noteq> - 1 \<longleftrightarrow>
        (a = CHR ''t'' \<or> a = CHR ''T'') \<and> b = CHR ''r'' \<and> c = CHR ''u'' \<and> d = CHR ''e''"
    by (simp add: is_bool_lit_def lowerc_t)
  also have "\<dots> \<longleftrightarrow> [a, b, c, d] \<in> {''true'', ''True'', ''false'', ''False''}"
    by auto
  finally show ?thesis .
qed

lemma is_bool_lit5:
  "is_bool_lit ([a, b, c, d, e] @ rest) (length [a, b, c, d, e]) \<noteq> - 1 \<longleftrightarrow>
     [a, b, c, d, e] \<in> {''true'', ''True'', ''false'', ''False''}"
proof -
  have "is_bool_lit ([a, b, c, d, e] @ rest) (length [a, b, c, d, e]) \<noteq> - 1 \<longleftrightarrow>
        (a = CHR ''f'' \<or> a = CHR ''F'') \<and> b = CHR ''a'' \<and> c = CHR ''l'' \<and> d = CHR ''s''
        \<and> e = CHR ''e''"
    by (simp add: is_bool_lit_def lowerc_f)
  also have "\<dots> \<longleftrightarrow> [a, b, c, d, e] \<in> {''true'', ''True'', ''false'', ''False''}"
    by auto
  finally show ?thesis .
qed

lemma is_bool_lit_iff:
  "is_bool_lit (w @ rest) (length w) \<noteq> - 1 \<longleftrightarrow>
     w \<in> {''true'', ''True'', ''false'', ''False''}"
proof -
  consider (four) a b c d where "w = [a, b, c, d]"
    | (five) a b c d e where "w = [a, b, c, d, e]"
    | (other) "length w \<noteq> 4" "length w \<noteq> 5"
    using length4_conv[of w] length5_conv[of w] by blast
  then show ?thesis
  proof cases
    case four
    then show ?thesis using is_bool_lit4[of a b c d rest] by simp
  next
    case five
    then show ?thesis using is_bool_lit5[of a b c d e rest] by simp
  next
    case other
    then have "is_bool_lit (w @ rest) (length w) = - 1"
      by (simp add: is_bool_lit_def)
    moreover have "w \<notin> {''true'', ''True'', ''false'', ''False''}"
      using other by auto
    ultimately show ?thesis by simp
  qed
qed

lemma skip_word_run:
  assumes "lexer_ok L" "rest_of L = ws @ rest"
    "\<forall>c\<in>set ws. isalnum (Some c) \<or> c = CHR ''_''"
    "rest = [] \<or> \<not> (isalnum (Some (hd rest)) \<or> hd rest = CHR ''_'')"
  shows "pos (skip_word L) = pos L + length ws \<and> buf (skip_word L) = buf L
         \<and> len (skip_word L) = len L"
  using assms
proof (induction ws arbitrary: L)
  case Nil
  then have "\<not> (isalnum (peek L) \<or> peek L = Some CHR ''_'')"
    by (cases rest) (auto simp: peek_rest)
  then show ?case by (simp add: skip_word.simps[of L])
next
  case (Cons d ws)
  then have pk: "isalnum (peek L) \<or> peek L = Some CHR ''_''" by (simp add: peek_rest)
  have "rest_of (snd (advance L)) = ws @ rest"
    using Cons.prems by (simp add: advance_rest)
  from Cons.IH[OF _ this] Cons.prems
  have "pos (skip_word (snd (advance L))) = pos (snd (advance L)) + length ws
        \<and> buf (skip_word (snd (advance L))) = buf L
        \<and> len (skip_word (snd (advance L))) = len L"
    by simp
  then show ?case
    using pk Cons.prems by (simp add: skip_word.simps[of L] advance_pos_rest)
qed

lemma scan_word_shape:
  assumes "lexer_ok L" "rest_of L = w @ rest" "w \<noteq> []"
    "\<forall>c\<in>set (tl w). isalnum (Some c) \<or> c = CHR ''_''"
    "rest = [] \<or> \<not> (isalnum (Some (hd rest)) \<or> hd rest = CHR ''_'')"
  shows "pos (skip_word (snd (advance L))) - pos L = length w
         \<and> drop (pos L) (buf (skip_word (snd (advance L)))) = w @ rest"
proof -
  obtain c ws where w: "w = c # ws" using assms(3) by (cases w) auto
  have ok1: "lexer_ok (snd (advance L))" using assms(1) by simp
  have r1: "rest_of (snd (advance L)) = ws @ rest"
    using assms(1,2) w by (simp add: advance_rest)
  have p1: "pos (snd (advance L)) = pos L + 1"
    using assms(1,2) w by (simp add: advance_pos_rest)
  from skip_word_run[OF ok1 r1 _ assms(5)] assms(4) w
  have "pos (skip_word (snd (advance L))) = pos (snd (advance L)) + length ws
        \<and> buf (skip_word (snd (advance L))) = buf L"
    by simp
  then show ?thesis
    using p1 w assms(2) by (simp add: rest_of_def)
qed

text \<open>
  Claim C5, as amended. \<open>is_bool_lit\<close> lower-cases the first character of the word and
  compares the others as they are: a scanned word is classified \<open>const_bool\<close> exactly
  when it is \<open>true\<close>, \<open>True\<close>, \<open>false\<close> or \<open>False\<close>.
\<close>

theorem bool_literal_words:
  assumes "len L = length (buf L)"
    and "drop (pos L) (buf L) = w @ rest"
    and "w \<noteq> []"
    and "\<forall>c\<in>set (tl w). isalnum (Some c) \<or> c = CHR ''_''"
    and "rest = [] \<or> \<not> (isalnum (Some (hd rest)) \<or> hd rest = CHR ''_'')"
  shows "type (fst (scan_identifier_or_keyword L)) = TOK_CONST_BOOL
         \<longleftrightarrow> w \<in> {''true'', ''True'', ''false'', ''False''}"
proof -
  have ok: "lexer_ok L" and r: "rest_of L = w @ rest"
    using assms(1,2) by (simp_all add: lexer_ok_def rest_of_def)
  note sh = scan_word_shape[OF ok r assms(3) assms(4) assms(5)]
  have "type (fst (scan_identifier_or_keyword L)) = TOK_CONST_BOOL
        \<longleftrightarrow> is_bool_lit (w @ rest) (length w) \<noteq> - 1"
    using sh by (simp add: scan_identifier_or_keyword_def Let_def make_def)
  then show ?thesis using is_bool_lit_iff[of w rest] by simp
qed

theorem bool_literal_words_witness:
  "type (fst (scan_identifier_or_keyword (init_lexer ''False;''))) = TOK_CONST_BOOL
   \<and> type (fst (scan_identifier_or_keyword (init_lexer ''TRUE;''))) \<noteq> TOK_CONST_BOOL"
proof -
  have a: "\<forall>c\<in>set (tl ''False''). isalnum (Some c) \<or> c = CHR ''_''"
    "\<forall>c\<in>set (tl ''TRUE''). isalnum (Some c) \<or> c = CHR ''_''"
    by (simp_all add: isalnum_def isalpha_def)
  have b: "\<not> (isalnum (Some CHR '';'') \<or> CHR '';'' = CHR ''_'')"
    by (simp add: isalnum_def isalpha_def isdigit_def)
  show ?thesis
    using bool_literal_words[of "init_lexer ''False;''" "''False''" "'';''"]
      bool_literal_words[of "init_lexer ''TRUE;''" "''TRUE''" "'';''"] a b
    by (simp add: init_lexer_def)
qed

text \<open>
  Claim C5 as stated fails: the capitalised word \<open>True\<close> is scanned as a boolean
  literal.
\<close>

theorem bool_literal_capital_counterexample:
  "type (fst (next_token (init_lexer ''True''))) = TOK_CONST_BOOL
   \<and> lexeme (fst (next_token (init_lexer ''True''))) = Some ''True''"
  by code_simp

text \<open>
  Claim C6 fails on the code: the words \<open>then\<close>, \<open>do\<close>, \<open>end\<close>, \<open>begin\<close> and
  \<open>of\<close> are accepted by the keyword matcher and by \<open>is_noise\<close>. The scanner asks
  \<open>is_keyword\<close> first and returns them as keywords; in this spelling they are never
  scanned as noise words.
\<close>

theorem keyword_noise_overlap:
  "is_keyword ''then'' 4 \<and> is_noise ''then'' 4
   \<and> is_keyword ''do'' 2 \<and> is_noise ''do'' 2
   \<and> is_keyword ''end'' 3 \<and> is_noise ''end'' 3
   \<and> is_keyword ''begin'' 5 \<and> is_noise ''begin'' 5
   \<and> is_keyword ''of'' 2 \<and> is_noise ''of'' 2
   \<and> type (fst (next_token (init_lexer ''then''))) = TOK_KEYWORD"
  by code_simp

section \<open>Recursive-descent parser (KSHARP_SYNTAX2.0.c)\<close>

text \<open>
  The parser's globals are the record \<open>pstate\<close>: the token array \<open>g_tokens\<close> (the list
  of the loaded slots), \<open>g_tok_count\<close>, \<open>g_tok_index\<close> and the flag \<open>g_error\<close>. The
  two \<open>int\<close> counters never leave the range of \<open>nat\<close>: the index starts at 0 and only
  \<open>next_tok\<close> changes it. What the parser prints (the trace of tags and the error
  messages) does not influence its control flow and is left out. The lexeme field of a
  \<open>ParserToken\<close> is called \<open>pt_lexeme\<close>, since \<open>lexeme\<close> is the field of the
  scanner's tokens.

  \<open>panic_recover\<close> is a loop that need not end on a stream without a final \<open>eof\<close>, so
  it returns an option. The mutually recursive parsing functions take a first argument
  that bounds the depth of calls and return \<open>None\<close> when it is used up; \<open>returns f st st'\<close>
  says that \<open>f\<close> started in \<open>st\<close> yields \<open>st'\<close> for every bound from some number on. The
  \<open>while\<close> loops of \<open>parse_simple_expr\<close>, \<open>parse_term\<close> and \<open>parse_block\<close> are the
  functions \<open>simple_expr_loop\<close>, \<open>term_loop\<close> and \<open>block_loop\<close>.
\<close>

definition MAX_LEXEME :: nat where "MAX_LEXEME = 128"
definition MAX_TOKENS :: nat where "MAX_TOKENS = 2000"
definition MAX_LINE :: nat where "MAX_LINE = 512"

fun str_eq :: "string \<Rightarrow> string \<Rightarrow> bool" where
  "str_eq [] [] = True"
| "str_eq (x # xs) (y # ys) = (if x \<noteq> y then False else str_eq xs ys)"
| "str_eq _ _ = False"

datatype ParserTokKind =
    PT_KEYWORD | PT_IDENTIFIER | PT_TYPE | PT_INTCONST | PT_FLOATCONST | PT_CHARCONST
  | PT_BOOLCONST | PT_OPERATOR | PT_SYMBOL | PT_COMMENT | PT_NOISE | PT_EOF | PT_UNKNOWN

record ParserToken =
  kind :: ParserTokKind
  pt_lexeme :: string

record pstate =
  g_tokens :: "ParserToken list"
  g_tok_count :: nat
  g_tok_index :: nat
  g_error :: bool

definition cur_tok_slot :: "pstate \<Rightarrow> nat" where
  "cur_tok_slot st =
     (if g_tok_index st \<ge> g_tok_count st then g_tok_count st - 1 else g_tok_index st)"

definition cur_tok :: "pstate \<Rightarrow> ParserToken" where
  "cur_tok st = g_tokens st ! cur_tok_slot st"

definition next_tok :: "pstate \<Rightarrow> pstate" where
  "next_tok st =
     (if g_tok_index st < g_tok_count st - 1 then st\<lparr>g_tok_index := g_tok_index st + 1\<rparr>
      else st)"

definition syntax_error :: "pstate \<Rightarrow> pstate" where
  "syntax_error st = st\<lparr>g_error := True\<rparr>"

partial_function (option) panic_recover :: "pstate \<Rightarrow> pstate option" where
  "panic_recover st =
     (if kind (cur_tok st) \<noteq> PT_EOF then
        (if kind (cur_tok st) = PT_SYMBOL
            \<and> (str_eq (pt_lexeme (cur_tok st)) '';'' \<or> str_eq (pt_lexeme (cur_tok st)) ''}'')
         then Some (next_tok st)
         else panic_recover (next_tok st))
      else Some st)"

definition accept_symbol :: "string \<Rightarrow> pstate \<Rightarrow> bool \<times> pstate" where
  "accept_symbol symb st =
     (if kind (cur_tok st) = PT_SYMBOL \<and> str_eq (pt_lexeme (cur_tok st)) symb
      then (True, next_tok st)
      else (False, st))"

definition expect_symbol :: "string \<Rightarrow> pstate \<Rightarrow> pstate option" where
  "expect_symbol symb st =
     (if fst (accept_symbol symb st) then Some (snd (accept_symbol symb st))
      else panic_recover (syntax_error st))"

definition is_relop :: "string \<Rightarrow> bool" where
  "is_relop op = (str_eq op ''=='' \<or> str_eq op ''!='' \<or> str_eq op ''<'' \<or> str_eq op ''<=''
                  \<or> str_eq op ''>'' \<or> str_eq op ''>='')"

fun parse_expression :: "nat \<Rightarrow> pstate \<Rightarrow> pstate option"
  and parse_simple_expr :: "nat \<Rightarrow> pstate \<Rightarrow> pstate option"
  and simple_expr_loop :: "nat \<Rightarrow> pstate \<Rightarrow> pstate option"
  and parse_term :: "nat \<Rightarrow> pstate \<Rightarrow> pstate option"
  and term_loop :: "nat \<Rightarrow> pstate \<Rightarrow> pstate option"
  and parse_factor :: "nat \<Rightarrow> pstate \<Rightarrow> pstate option"
where
  "parse_expression 0 st = None"
| "parse_expression (Suc n) st =
     do {
       st1 \<leftarrow> parse_simple_expr n st;
       if kind (cur_tok st1) = PT_OPERATOR \<and> is_relop (pt_lexeme (cur_tok st1))
       then parse_simple_expr n (next_tok st1)
       else Some st1
     }"
| "parse_simple_expr 0 st = None"
| "parse_simple_expr (Suc n) st =
     do {
       st1 \<leftarrow> parse_term n st;
       simple_expr_loop n st1
     }"
| "simple_expr_loop 0 st = None"
| "simple_expr_loop (Suc n) st =
     (if kind (cur_tok st) = PT_OPERATOR
         \<and> (str_eq (pt_lexeme (cur_tok st)) ''+'' \<or> str_eq (pt_lexeme (cur_tok st)) ''-''
            \<or> str_eq (pt_lexeme (cur_tok st)) ''||'')
      then do {
        st1 \<leftarrow> parse_term n (next_tok st);
        simple_expr_loop n st1
      }
      else Some st)"
| "parse_term 0 st = None"
| "parse_term (Suc n) st =
     do {
       st1 \<leftarrow> parse_factor n st;
       term_loop n st1
     }"
| "term_loop 0 st = None"
| "term_loop (Suc n) st =
     (if kind (cur_tok st) = PT_OPERATOR
         \<and> (str_eq (pt_lexeme (cur_tok st)) ''*'' \<or> str_eq (pt_lexeme (cur_tok st)) ''/''
            \<or> str_eq (pt_lexeme (cur_tok st)) ''%'' \<or> str_eq (pt_lexeme (cur_tok st)) ''&&'')
      then do {
        st1 \<leftarrow> parse_factor n (next_tok st);
        term_loop n st1
      }
      else Some st)"
| "parse_factor 0 st = None"
| "parse_factor (Suc n) st =
     (if kind (cur_tok st) = PT_SYMBOL \<and> str_eq (pt_lexeme (cur_tok st)) ''('' then
        do {
          st1 \<leftarrow> parse_expression n (next_tok st);
          if kind (cur_tok st1) = PT_SYMBOL \<and> str_eq (pt_lexeme (cur_tok st1)) '')''
          then Some (next_tok st1)
          else Some (syntax_error st1)
        }
      else if kind (cur_tok st) = PT_IDENTIFIER then Some (next_tok st)
      else if kind (cur_tok st) = PT_INTCONST \<or> kind (cur_tok st) = PT_FLOATCONST
              \<or> kind (cur_tok st) = PT_CHARCONST \<or> kind (cur_tok st) = PT_BOOLCONST
      then Some (next_tok st)
      else panic_recover (syntax_error st))"

definition parse_decl_stmt :: "pstate \<Rightarrow> pstate option" where
  "parse_decl_stmt st =
     (let st1 = next_tok st;
          st2 = (if kind (cur_tok st1) = PT_IDENTIFIER then next_tok st1
                 else syntax_error st1)
      in expect_symbol '';'' st2)"

definition parse_input_stmt :: "pstate \<Rightarrow> pstate option" where
  "parse_input_stmt st =
     (let st1 = next_tok st;
          st2 = (if kind (cur_tok st1) = PT_IDENTIFIER then next_tok st1
                 else syntax_error st1)
      in expect_symbol '';'' st2)"

definition parse_print_stmt :: "nat \<Rightarrow> pstate \<Rightarrow> pstate option" where
  "parse_print_stmt n st =
     do {
       st1 \<leftarrow> parse_expression n (next_tok st);
       expect_symbol '';'' st1
     }"

definition parse_assign_stmt :: "nat \<Rightarrow> pstate \<Rightarrow> pstate option" where
  "parse_assign_stmt n st =
     (let st1 = (if kind (cur_tok st) = PT_IDENTIFIER then next_tok st else syntax_error st);
          st2 = (if kind (cur_tok st1) = PT_OPERATOR \<and> str_eq (pt_lexeme (cur_tok st1)) ''=''
                 then next_tok st1 else syntax_error st1)
      in do {
        st3 \<leftarrow> parse_expression n st2;
        expect_symbol '';'' st3
      })"

definition parse_assign_no_semicolon :: "nat \<Rightarrow> pstate \<Rightarrow> pstate option" where
  "parse_assign_no_semicolon n st =
     (if kind (cur_tok st) = PT_IDENTIFIER then
        (let st1 = next_tok st in
         if kind (cur_tok st1) = PT_OPERATOR \<and> str_eq (pt_lexeme (cur_tok st1)) ''=''
         then parse_expression n (next_tok st1)
         else Some (syntax_error st1))
      else Some (syntax_error st))"

fun parse_statement :: "nat \<Rightarrow> pstate \<Rightarrow> pstate option"
  and parse_if_stmt :: "nat \<Rightarrow> pstate \<Rightarrow> pstate option"
  and parse_while_stmt :: "nat \<Rightarrow> pstate \<Rightarrow> pstate option"
  and parse_for_stmt :: "nat \<Rightarrow> pstate \<Rightarrow> pstate option"
  and parse_block :: "nat \<Rightarrow> pstate \<Rightarrow> pstate option"
  and block_loop :: "nat \<Rightarrow> pstate \<Rightarrow> pstate option"
where
  "parse_statement 0 st = None"
| "parse_statement (Suc n) st =
     (if kind (cur_tok st) = PT_TYPE then parse_decl_stmt st
      else if kind (cur_tok st) = PT_KEYWORD \<and> str_eq (pt_lexeme (cur_tok st)) ''input''
      then parse_input_stmt st
      else if kind (cur_tok st) = PT_KEYWORD
              \<and> (str_eq (pt_lexeme (cur_tok st)) ''print''
                 \<or> str_eq (pt_lexeme (cur_tok st)) ''writeln'')
      then parse_print_stmt n st
      else if kind (cur_tok st) = PT_KEYWORD \<and> str_eq (pt_lexeme (cur_tok st)) ''if''
      then parse_if_stmt n st
      else if kind (cur_tok st) = PT_KEYWORD \<and> str_eq (pt_lexeme (cur_tok st)) ''while''
      then parse_while_stmt n st
      else if kind (cur_tok st) = PT_KEYWORD \<and> str_eq (pt_lexeme (cur_tok st)) ''for''
      then parse_for_stmt n st
      else if kind (cur_tok st) = PT_IDENTIFIER then parse_assign_stmt n st
      else panic_recover (syntax_error st))"
| "parse_if_stmt 0 st = None"
| "parse_if_stmt (Suc n) st =
     do {
       st1 \<leftarrow> expect_symbol ''('' (next_tok st);
       st2 \<leftarrow> parse_expression n st1;
       st3 \<leftarrow> expect_symbol '')'' st2;
       st4 \<leftarrow> parse_block n st3;
       if kind (cur_tok st4) = PT_KEYWORD \<and> str_eq (pt_lexeme (cur_tok st4)) ''else''
       then parse_block n (next_tok st4)
       else Some st4
     }"
| "parse_while_stmt 0 st = None"
| "parse_while_stmt (Suc n) st =
     do {
       st1 \<leftarrow> expect_symbol ''('' (next_tok st);
       st2 \<leftarrow> parse_expression n st1;
       st3 \<leftarrow> expect_symbol '')'' st2;
       parse_block n st3
     }"
| "parse_for_stmt 0 st = None"
| "parse_for_stmt (Suc n) st =
     do {
       st1 \<leftarrow> expect_symbol ''('' (next_tok st);
       st2 \<leftarrow> parse_assign_stmt n st1;
       st3 \<leftarrow> parse_expression n st2;
       st4 \<leftarrow> expect_symbol '';'' st3;
       st5 \<leftarrow> parse_assign_no_semicolon n st4;
       st6 \<leftarrow> expect_symbol '')'' st5;
       parse_block n st6
     }"
| "parse_block 0 st = None"
| "parse_block (Suc n) st =
     (if kind (cur_tok st) = PT_SYMBOL \<and> str_eq (pt_lexeme (cur_tok st)) ''{'' then
        do {
          st1 \<leftarrow> block_loop n (next_tok st);
          expect_symbol ''}'' st1
        }
      else parse_statement n st)"
| "block_loop 0 st = None"
| "block_loop (Suc n) st =
     (if kind (cur_tok st) \<noteq> PT_EOF
         \<and> \<not> (kind (cur_tok st) = PT_SYMBOL \<and> str_eq (pt_lexeme (cur_tok st)) ''}'')
      then do {
        st1 \<leftarrow> parse_statement n st;
        block_loop n st1
      }
      else Some st)"

fun parse_stmt_list :: "nat \<Rightarrow> pstate \<Rightarrow> pstate option" where
  "parse_stmt_list 0 st = None"
| "parse_stmt_list (Suc n) st =
     (if kind (cur_tok st) \<noteq> PT_EOF then
        do {
          st1 \<leftarrow> parse_statement n st;
          parse_stmt_list n st1
        }
      else Some st)"

text \<open>
  \<open>stmt_list_iterations\<close> is \<open>parse_stmt_list\<close> with a counter added: it returns how
  often the body of the loop has run.
\<close>

fun stmt_list_iterations :: "nat \<Rightarrow> pstate \<Rightarrow> nat option" where
  "stmt_list_iterations 0 st = None"
| "stmt_list_iterations (Suc n) st =
     (if kind (cur_tok st) \<noteq> PT_EOF then
        do {
          st1 \<leftarrow> parse_statement n st;
          k \<leftarrow> stmt_list_iterations n st1;
          Some (Suc k)
        }
      else Some 0)"

definition parse_program :: "nat \<Rightarrow> pstate \<Rightarrow> pstate option" where
  "parse_program n st = parse_stmt_list n st"

subsection \<open>Well-formed token streams and panic recovery\<close>

text \<open>
  \<open>stream_ok\<close> is the invariant of a loaded stream: the count is the number of loaded
  tokens, the last token is \<open>eof\<close> and the index is inside the stream. \<open>later st st'\<close>
  says that \<open>st'\<close> is a state of the same stream at the same or a later index.
\<close>

lemma str_eq_iff [simp]: "str_eq a b \<longleftrightarrow> a = b"
  by (induction a b rule: str_eq.induct) auto

definition stream_ok :: "pstate \<Rightarrow> bool" where
  "stream_ok st =
     (g_tok_count st = length (g_tokens st) \<and> g_tokens st \<noteq> []
      \<and> kind (last (g_tokens st)) = PT_EOF \<and> g_tok_index st < g_tok_count st)"

definition remaining :: "pstate \<Rightarrow> nat" where
  "remaining st = g_tok_count st - 1 - g_tok_index st"

definition later :: "pstate \<Rightarrow> pstate \<Rightarrow> bool" where
  "later st st' =
     (stream_ok st' \<and> g_tokens st' = g_tokens st \<and> g_tok_count st' = g_tok_count st
      \<and> g_tok_index st \<le> g_tok_index st')"

lemma later_refl: "stream_ok st \<Longrightarrow> later st st"
  by (simp add: later_def)

lemma later_trans: "later a b \<Longrightarrow> later b c \<Longrightarrow> later a c"
  by (auto simp: later_def)

lemma later_ok: "later a b \<Longrightarrow> stream_ok b"
  by (simp add: later_def)

lemma later_remaining: "later a b \<Longrightarrow> remaining b \<le> remaining a"
  by (auto simp: later_def remaining_def)

lemma cur_tok_ok: "stream_ok st \<Longrightarrow> cur_tok st = g_tokens st ! g_tok_index st"
  by (simp add: stream_ok_def cur_tok_def cur_tok_slot_def)

lemma not_eof_not_last:
  assumes "stream_ok st" "kind (cur_tok st) \<noteq> PT_EOF"
  shows "g_tok_index st < g_tok_count st - 1"
proof (rule ccontr)
  assume "\<not> g_tok_index st < g_tok_count st - 1"
  with assms(1) have "g_tok_index st = length (g_tokens st) - 1"
    by (auto simp: stream_ok_def)
  moreover have "cur_tok st = g_tokens st ! g_tok_index st"
    using assms(1) by (rule cur_tok_ok)
  ultimately have "cur_tok st = last (g_tokens st)"
    using assms(1) by (simp add: last_conv_nth stream_ok_def)
  with assms show False by (simp add: stream_ok_def)
qed

lemma next_tok_later: "stream_ok st \<Longrightarrow> later st (next_tok st)"
  by (auto simp: later_def next_tok_def stream_ok_def)

lemma next_tok_strict:
  "stream_ok st \<Longrightarrow> kind (cur_tok st) \<noteq> PT_EOF \<Longrightarrow>
   g_tok_index (next_tok st) = g_tok_index st + 1 \<and> remaining (next_tok st) < remaining st"
  using not_eof_not_last[of st] by (auto simp: next_tok_def remaining_def)

lemma syntax_error_later: "stream_ok st \<Longrightarrow> later st (syntax_error st)"
  by (simp add: later_def syntax_error_def stream_ok_def)

lemma syntax_error_cur [simp]: "cur_tok (syntax_error st) = cur_tok st"
  by (simp add: syntax_error_def cur_tok_def cur_tok_slot_def)

lemma syntax_error_index [simp]: "g_tok_index (syntax_error st) = g_tok_index st"
  by (simp add: syntax_error_def)

lemma syntax_error_remaining [simp]: "remaining (syntax_error st) = remaining st"
  by (simp add: syntax_error_def remaining_def)

lemma panic_recover_total:
  "stream_ok st \<Longrightarrow>
   \<exists>st'. panic_recover st = Some st' \<and> later st st'
         \<and> (kind (cur_tok st) \<noteq> PT_EOF \<longrightarrow> g_tok_index st < g_tok_index st')"
proof (induction "remaining st" arbitrary: st rule: less_induct)
  case less
  show ?case
  proof (cases "kind (cur_tok st) \<noteq> PT_EOF")
    case False
    then show ?thesis
      using less.prems by (subst panic_recover.simps) (simp add: later_refl)
  next
    case True
    note nt = next_tok_strict[OF less.prems True] next_tok_later[OF less.prems]
    show ?thesis
    proof (cases "kind (cur_tok st) = PT_SYMBOL
            \<and> (str_eq (pt_lexeme (cur_tok st)) '';'' \<or> str_eq (pt_lexeme (cur_tok st)) ''}'')")
      case b: True
      then have "panic_recover st = Some (next_tok st)"
        using True by (subst panic_recover.simps) simp
      then show ?thesis using nt by simp
    next
      case nb: False
      then have e: "panic_recover st = panic_recover (next_tok st)"
        using True by (subst panic_recover.simps) auto
      from less.hyps[of "next_tok st"] nt
      obtain st' where "panic_recover (next_tok st) = Some st'" "later (next_tok st) st'"
        by (auto simp: later_ok)
      then show ?thesis
        using e nt later_trans[of st "next_tok st" st'] by (auto simp: later_def)
    qed
  qed
qed

lemma expect_symbol_total:
  "stream_ok st \<Longrightarrow> \<exists>st'. expect_symbol symb st = Some st' \<and> later st st'"
proof (cases "fst (accept_symbol symb st)")
  case True
  assume "stream_ok st"
  then show ?thesis
    using True next_tok_later[of st]
    by (auto simp: expect_symbol_def accept_symbol_def split: if_splits)
next
  case False
  assume ok: "stream_ok st"
  from panic_recover_total[OF later_ok[OF syntax_error_later[OF ok]]]
  obtain st' where "panic_recover (syntax_error st) = Some st'" "later (syntax_error st) st'"
    by blast
  then show ?thesis
    using False later_trans[OF syntax_error_later[OF ok]]
    by (auto simp: expect_symbol_def)
qed

definition returns :: "(nat \<Rightarrow> pstate \<Rightarrow> pstate option) \<Rightarrow> pstate \<Rightarrow> pstate \<Rightarrow> bool" where
  "returns f st st' = (\<exists>n. \<forall>m\<ge>n. f m st = Some st')"

definition completes :: "(nat \<Rightarrow> pstate \<Rightarrow> pstate option) \<Rightarrow> pstate \<Rightarrow> bool" where
  "completes f st = (\<exists>st'. returns f st st' \<and> later st st')"

lemma returns_Suc:
  "(\<And>m. m \<ge> n \<Longrightarrow> f (Suc m) st = Some st') \<Longrightarrow> returns f st st'"
proof -
  assume a: "\<And>m. m \<ge> n \<Longrightarrow> f (Suc m) st = Some st'"
  have "\<forall>m\<ge>Suc n. f m st = Some st'"
  proof (intro allI impI)
    fix m assume "Suc n \<le> m"
    then obtain m' where "m = Suc m'" "n \<le> m'" by (cases m) auto
    then show "f m st = Some st'" using a by simp
  qed
  then show ?thesis unfolding returns_def by blast
qed

lemma returns_const: "(\<And>m. f (Suc m) st = Some st') \<Longrightarrow> returns f st st'"
  by (rule returns_Suc[of 0]) simp

subsection \<open>The expression parser returns\<close>

lemma returns_conj:
  assumes "returns f a a'" "\<exists>n. \<forall>m\<ge>n. Q m"
  shows "\<exists>n. \<forall>m\<ge>n. f m a = Some a' \<and> Q m"
proof -
  from assms obtain n1 n2 where "\<forall>m\<ge>n1. f m a = Some a'" "\<forall>m\<ge>n2. Q m"
    by (auto simp: returns_def)
  then have "\<forall>m\<ge>max n1 n2. f m a = Some a' \<and> Q m" by simp
  then show ?thesis by blast
qed

lemma returns_ex: "returns f a a' \<Longrightarrow> \<exists>n. \<forall>m\<ge>n. f m a = Some a'"
  by (simp add: returns_def)

lemma completesE:
  assumes "completes f st"
  obtains st' where "returns f st st'" "later st st'"
  using assms by (auto simp: completes_def)

lemma completesI: "returns f st st' \<Longrightarrow> later st st' \<Longrightarrow> completes f st"
  by (auto simp: completes_def)

lemma parse_factor_step:
  assumes ok: "stream_ok st"
    and IH: "\<And>s. stream_ok s \<Longrightarrow> remaining s < remaining st \<Longrightarrow> completes parse_expression s"
  shows "completes parse_factor st"
proof -
  consider (paren) "kind (cur_tok st) = PT_SYMBOL \<and> str_eq (pt_lexeme (cur_tok st)) ''(''"
    | (atom) "\<not> (kind (cur_tok st) = PT_SYMBOL \<and> str_eq (pt_lexeme (cur_tok st)) ''('')"
        "kind (cur_tok st) = PT_IDENTIFIER \<or> kind (cur_tok st) = PT_INTCONST
         \<or> kind (cur_tok st) = PT_FLOATCONST \<or> kind (cur_tok st) = PT_CHARCONST
         \<or> kind (cur_tok st) = PT_BOOLCONST"
    | (bad) "\<not> (kind (cur_tok st) = PT_SYMBOL \<and> str_eq (pt_lexeme (cur_tok st)) ''('')"
        "kind (cur_tok st) \<noteq> PT_IDENTIFIER" "kind (cur_tok st) \<noteq> PT_INTCONST"
        "kind (cur_tok st) \<noteq> PT_FLOATCONST" "kind (cur_tok st) \<noteq> PT_CHARCONST"
        "kind (cur_tok st) \<noteq> PT_BOOLCONST"
    by blast
  then show ?thesis
  proof cases
    case paren
    then have ne: "kind (cur_tok st) \<noteq> PT_EOF" by simp
    note nt = next_tok_strict[OF ok ne] next_tok_later[OF ok]
    from IH[of "next_tok st"] nt obtain st1
      where r1: "returns parse_expression (next_tok st) st1" and l1: "later (next_tok st) st1"
      by (auto simp: later_ok elim: completesE)
    let ?st2 = "if kind (cur_tok st1) = PT_SYMBOL \<and> str_eq (pt_lexeme (cur_tok st1)) '')''
                then next_tok st1 else syntax_error st1"
    have l2: "later st1 ?st2"
      using next_tok_later[OF later_ok[OF l1]] syntax_error_later[OF later_ok[OF l1]] by simp
    from returns_ex[OF r1] obtain n
      where n: "\<forall>m\<ge>n. parse_expression m (next_tok st) = Some st1" by blast
    have "returns parse_factor st ?st2"
      by (rule returns_Suc[of n]) (use paren n in simp)
    moreover have "later st ?st2"
      using later_trans[OF later_trans[OF nt(2) l1] l2] .
    ultimately show ?thesis by (rule completesI)
  next
    case atom
    then have "returns parse_factor st (next_tok st)"
      by (intro returns_const) auto
    then show ?thesis using next_tok_later[OF ok] by (rule completesI)
  next
    case bad
    from panic_recover_total[OF later_ok[OF syntax_error_later[OF ok]]]
    obtain st' where p: "panic_recover (syntax_error st) = Some st'"
      and l: "later (syntax_error st) st'" by blast
    have "returns parse_factor st st'"
      by (rule returns_const) (use bad p in auto)
    then show ?thesis
      using later_trans[OF syntax_error_later[OF ok] l] by (rule completesI)
  qed
qed

lemma loop_step:
  assumes eq: "\<And>m. loop (Suc m) st =
                 (if c then do { st1 \<leftarrow> body m (next_tok st); loop m st1 } else Some st)"
    and ok: "stream_ok st"
    and ne: "c \<Longrightarrow> kind (cur_tok st) \<noteq> PT_EOF"
    and IHb: "\<And>s. stream_ok s \<Longrightarrow> remaining s < remaining st \<Longrightarrow> completes body s"
    and IHl: "\<And>s. stream_ok s \<Longrightarrow> remaining s < remaining st \<Longrightarrow> completes loop s"
  shows "completes loop st"
proof (cases c)
  case False
  then have "returns loop st st" by (intro returns_const) (simp add: eq)
  then show ?thesis using later_refl[OF ok] by (rule completesI)
next
  case True
  note nt = next_tok_strict[OF ok ne[OF True]] next_tok_later[OF ok]
  from IHb[of "next_tok st"] nt obtain st1
    where r1: "returns body (next_tok st) st1" and l1: "later (next_tok st) st1"
    by (auto simp: later_ok elim: completesE)
  have "remaining st1 < remaining st"
    using later_remaining[OF l1] nt(1) by simp
  from IHl[OF later_ok[OF l1] this] obtain st2
    where r2: "returns loop st1 st2" and l2: "later st1 st2"
    by (auto elim: completesE)
  from returns_conj[OF r1 returns_ex[OF r2]] obtain n
    where n: "\<forall>m\<ge>n. body m (next_tok st) = Some st1 \<and> loop m st1 = Some st2" by blast
  have "returns loop st st2"
    by (rule returns_Suc[of n]) (use True n in \<open>simp add: eq\<close>)
  moreover have "later st st2"
    using later_trans[OF later_trans[OF nt(2) l1] l2] .
  ultimately show ?thesis by (rule completesI)
qed

lemma seq_step:
  assumes eq: "\<And>m. h (Suc m) st = do { st1 \<leftarrow> f m st; g m st1 }"
    and cf: "completes f st"
    and cg: "\<And>s. later st s \<Longrightarrow> completes g s"
  shows "completes h st"
proof -
  from cf obtain st1 where r1: "returns f st st1" and l1: "later st st1"
    by (auto elim: completesE)
  from cg[OF l1] obtain st2 where r2: "returns g st1 st2" and l2: "later st1 st2"
    by (auto elim: completesE)
  from returns_conj[OF r1 returns_ex[OF r2]] obtain n
    where n: "\<forall>m\<ge>n. f m st = Some st1 \<and> g m st1 = Some st2" by blast
  have "returns h st st2"
    by (rule returns_Suc[of n]) (use n in \<open>simp add: eq\<close>)
  then show ?thesis using later_trans[OF l1 l2] by (rule completesI)
qed

lemma parse_expression_step:
  assumes ok: "stream_ok st"
    and cs: "completes parse_simple_expr st"
    and IH: "\<And>s. stream_ok s \<Longrightarrow> remaining s < remaining st \<Longrightarrow> completes parse_simple_expr s"
  shows "completes parse_expression st"
proof -
  from cs obtain st1 where r1: "returns parse_simple_expr st st1" and l1: "later st st1"
    by (auto elim: completesE)
  show ?thesis
  proof (cases "kind (cur_tok st1) = PT_OPERATOR \<and> is_relop (pt_lexeme (cur_tok st1))")
    case False
    from returns_ex[OF r1] obtain n where n: "\<forall>m\<ge>n. parse_simple_expr m st = Some st1"
      by blast
    have "returns parse_expression st st1"
      by (rule returns_Suc[of n]) (use False n in auto)
    then show ?thesis using l1 by (rule completesI)
  next
    case True
    then have ne: "kind (cur_tok st1) \<noteq> PT_EOF" by simp
    note nt = next_tok_strict[OF later_ok[OF l1] ne] next_tok_later[OF later_ok[OF l1]]
    have "remaining (next_tok st1) < remaining st"
      using nt(1) later_remaining[OF l1] by simp
    from IH[OF later_ok[OF nt(2)] this] obtain st2
      where r2: "returns parse_simple_expr (next_tok st1) st2" and l2: "later (next_tok st1) st2"
      by (auto elim: completesE)
    from returns_conj[OF r1 returns_ex[OF r2]] obtain n
      where n: "\<forall>m\<ge>n. parse_simple_expr m st = Some st1
                 \<and> parse_simple_expr m (next_tok st1) = Some st2" by blast
    have "returns parse_expression st st2"
      by (rule returns_Suc[of n]) (use True n in simp)
    then show ?thesis
      using later_trans[OF later_trans[OF l1 nt(2)] l2] by (rule completesI)
  qed
qed

lemma expression_total_aux:
  "\<forall>st. stream_ok st \<and> remaining st \<le> k \<longrightarrow>
     completes parse_factor st \<and> completes term_loop st \<and> completes parse_term st
     \<and> completes simple_expr_loop st \<and> completes parse_simple_expr st
     \<and> completes parse_expression st"
proof (induction k rule: less_induct)
  case (less k)
  have lt: "completes parse_factor s \<and> completes term_loop s \<and> completes parse_term s
     \<and> completes simple_expr_loop s \<and> completes parse_simple_expr s
     \<and> completes parse_expression s"
    if "stream_ok s" "remaining s < k" for s
    using less.IH[of "remaining s"] that by auto
  have fac: "completes parse_factor s" if "stream_ok s" "remaining s \<le> k" for s
    by (rule parse_factor_step[OF that(1)]) (use lt that in auto)
  have tl: "completes term_loop s" if "stream_ok s" "remaining s \<le> k" for s
    by (rule loop_step[where body = parse_factor and loop = term_loop,
          OF term_loop.simps(2) that(1)]) (use lt that in auto)
  have tm: "completes parse_term s" if "stream_ok s" "remaining s \<le> k" for s
  proof (rule seq_step[where f = parse_factor and g = term_loop, OF parse_term.simps(2)])
    show "completes parse_factor s" using fac that by simp
    show "completes term_loop s'" if "later s s'" for s'
      using tl[OF later_ok[OF that]] later_remaining[OF that] \<open>remaining s \<le> k\<close> by simp
  qed
  have sl: "completes simple_expr_loop s" if "stream_ok s" "remaining s \<le> k" for s
  proof (rule loop_step[where body = parse_term and loop = simple_expr_loop,
          OF simple_expr_loop.simps(2) that(1)])
    show "kind (cur_tok s) = PT_OPERATOR \<and>
      (str_eq (pt_lexeme (cur_tok s)) ''+'' \<or> str_eq (pt_lexeme (cur_tok s)) ''-''
       \<or> str_eq (pt_lexeme (cur_tok s)) ''||'') \<Longrightarrow> kind (cur_tok s) \<noteq> PT_EOF" by simp
    show "completes parse_term s'" if "stream_ok s'" "remaining s' < remaining s" for s'
      using tm[OF that(1)] that(2) \<open>remaining s \<le> k\<close> by simp
    show "completes simple_expr_loop s'" if "stream_ok s'" "remaining s' < remaining s" for s'
      using lt[OF that(1)] that(2) \<open>remaining s \<le> k\<close> by simp
  qed
  have se: "completes parse_simple_expr s" if "stream_ok s" "remaining s \<le> k" for s
  proof (rule seq_step[where f = parse_term and g = simple_expr_loop,
          OF parse_simple_expr.simps(2)])
    show "completes parse_term s" using tm that by simp
    show "completes simple_expr_loop s'" if "later s s'" for s'
      using sl[OF later_ok[OF that]] later_remaining[OF that] \<open>remaining s \<le> k\<close> by simp
  qed
  have ex: "completes parse_expression s" if "stream_ok s" "remaining s \<le> k" for s
  proof (rule parse_expression_step[OF that(1)])
    show "completes parse_simple_expr s" using se that by simp
    show "completes parse_simple_expr s'" if "stream_ok s'" "remaining s' < remaining s" for s'
      using se[OF that(1)] that(2) \<open>remaining s \<le> k\<close> by simp
  qed
  show ?case using fac tl tm sl se ex by blast
qed

lemma parse_expression_total: "stream_ok st \<Longrightarrow> completes parse_expression st"
  using expression_total_aux[of "remaining st"] by simp

subsection \<open>The statement parsers return and consume\<close>

definition progresses :: "(nat \<Rightarrow> pstate \<Rightarrow> pstate option) \<Rightarrow> pstate \<Rightarrow> bool" where
  "progresses f st =
     (\<exists>st'. returns f st st' \<and> later st st' \<and> g_tok_index st < g_tok_index st')"

lemma progressesI:
  "returns f st st' \<Longrightarrow> later st st' \<Longrightarrow> g_tok_index st < g_tok_index st' \<Longrightarrow>
   progresses f st"
  by (auto simp: progresses_def)

lemma progresses_completes: "progresses f st \<Longrightarrow> completes f st"
  by (auto simp: progresses_def completes_def)

lemma later_index: "later a b \<Longrightarrow> g_tok_index a \<le> g_tok_index b"
  by (simp add: later_def)

lemma later_strict_remaining:
  "later a b \<Longrightarrow> g_tok_index a < g_tok_index b \<Longrightarrow> remaining b < remaining a"
  by (auto simp: later_def remaining_def stream_ok_def)

lemma decl_like_total:
  assumes ok: "stream_ok st" and ne: "kind (cur_tok st) \<noteq> PT_EOF"
  shows "\<exists>st'. expect_symbol '';''
            (if kind (cur_tok (next_tok st)) = PT_IDENTIFIER then next_tok (next_tok st)
             else syntax_error (next_tok st)) = Some st'
          \<and> later st st' \<and> g_tok_index st < g_tok_index st'"
proof -
  note nt = next_tok_strict[OF ok ne] next_tok_later[OF ok]
  let ?st2 = "if kind (cur_tok (next_tok st)) = PT_IDENTIFIER then next_tok (next_tok st)
              else syntax_error (next_tok st)"
  have l2: "later (next_tok st) ?st2"
    using next_tok_later[OF later_ok[OF nt(2)]] syntax_error_later[OF later_ok[OF nt(2)]]
    by simp
  from expect_symbol_total[OF later_ok[OF l2], of "'';''"] obtain st'
    where e: "expect_symbol '';'' ?st2 = Some st'" and l3: "later ?st2 st'" by blast
  have "later st st'" using later_trans[OF later_trans[OF nt(2) l2] l3] .
  moreover have "g_tok_index st < g_tok_index st'"
    using nt(1) later_index[OF l2] later_index[OF l3] by simp
  ultimately show ?thesis using e by blast
qed

lemma parse_decl_stmt_total:
  "stream_ok st \<Longrightarrow> kind (cur_tok st) \<noteq> PT_EOF \<Longrightarrow>
   \<exists>st'. parse_decl_stmt st = Some st' \<and> later st st' \<and> g_tok_index st < g_tok_index st'"
  using decl_like_total[of st] by (simp add: parse_decl_stmt_def Let_def)

lemma parse_input_stmt_total:
  "stream_ok st \<Longrightarrow> kind (cur_tok st) \<noteq> PT_EOF \<Longrightarrow>
   \<exists>st'. parse_input_stmt st = Some st' \<and> later st st' \<and> g_tok_index st < g_tok_index st'"
  using decl_like_total[of st] by (simp add: parse_input_stmt_def Let_def)

lemma parse_print_stmt_total:
  assumes ok: "stream_ok st" and ne: "kind (cur_tok st) \<noteq> PT_EOF"
  shows "progresses parse_print_stmt st"
proof -
  note nt = next_tok_strict[OF ok ne] next_tok_later[OF ok]
  from parse_expression_total[OF later_ok[OF nt(2)]] obtain st1
    where r1: "returns parse_expression (next_tok st) st1" and l1: "later (next_tok st) st1"
    by (auto elim: completesE)
  from expect_symbol_total[OF later_ok[OF l1], of "'';''"] obtain st2
    where e: "expect_symbol '';'' st1 = Some st2" and l2: "later st1 st2" by blast
  from returns_ex[OF r1] obtain n
    where n: "\<forall>m\<ge>n. parse_expression m (next_tok st) = Some st1" by blast
  have "\<forall>m\<ge>n. parse_print_stmt m st = Some st2"
    using n e by (simp add: parse_print_stmt_def)
  then have "returns parse_print_stmt st st2"
    unfolding returns_def by blast
  moreover have "later st st2" using later_trans[OF later_trans[OF nt(2) l1] l2] .
  moreover have "g_tok_index st < g_tok_index st2"
    using nt(1) later_index[OF l1] later_index[OF l2] by simp
  ultimately show ?thesis by (rule progressesI)
qed

lemma parse_assign_stmt_total:
  assumes ok: "stream_ok st"
  shows "completes parse_assign_stmt st
         \<and> (kind (cur_tok st) = PT_IDENTIFIER \<longrightarrow> progresses parse_assign_stmt st)"
proof -
  let ?st1 = "if kind (cur_tok st) = PT_IDENTIFIER then next_tok st else syntax_error st"
  let ?st2 = "if kind (cur_tok ?st1) = PT_OPERATOR \<and> str_eq (pt_lexeme (cur_tok ?st1)) ''=''
              then next_tok ?st1 else syntax_error ?st1"
  have l1: "later st ?st1"
    using next_tok_later[OF ok] syntax_error_later[OF ok] by simp
  have l2: "later ?st1 ?st2"
    using next_tok_later[OF later_ok[OF l1]] syntax_error_later[OF later_ok[OF l1]] by simp
  from parse_expression_total[OF later_ok[OF l2]] obtain st3
    where r3: "returns parse_expression ?st2 st3" and l3: "later ?st2 st3"
    by (auto elim: completesE)
  from expect_symbol_total[OF later_ok[OF l3], of "'';''"] obtain st4
    where e: "expect_symbol '';'' st3 = Some st4" and l4: "later st3 st4" by blast
  from returns_ex[OF r3] obtain n
    where n: "\<forall>m\<ge>n. parse_expression m ?st2 = Some st3" by blast
  have "\<forall>m\<ge>n. parse_assign_stmt m st = Some st4"
    using n e by (simp add: parse_assign_stmt_def Let_def)
  then have r: "returns parse_assign_stmt st st4"
    unfolding returns_def by blast
  have l: "later st st4"
    using later_trans[OF later_trans[OF later_trans[OF l1 l2] l3] l4] .
  have "g_tok_index st < g_tok_index st4" if "kind (cur_tok st) = PT_IDENTIFIER"
  proof -
    have "kind (cur_tok st) \<noteq> PT_EOF" using that by simp
    from next_tok_strict[OF ok this] that have "g_tok_index st < g_tok_index ?st1" by simp
    then show ?thesis
      using later_index[OF l2] later_index[OF l3] later_index[OF l4] by linarith
  qed
  then show ?thesis
    using r l by (auto intro: completesI progressesI)
qed

lemma parse_assign_no_semicolon_total:
  assumes ok: "stream_ok st"
  shows "completes parse_assign_no_semicolon st"
proof (cases "kind (cur_tok st) = PT_IDENTIFIER")
  case False
  then have "returns parse_assign_no_semicolon st (syntax_error st)"
    by (simp add: returns_def parse_assign_no_semicolon_def)
  then show ?thesis using syntax_error_later[OF ok] by (rule completesI)
next
  case True
  let ?st1 = "next_tok st"
  have l1: "later st ?st1" by (rule next_tok_later[OF ok])
  show ?thesis
  proof (cases "kind (cur_tok ?st1) = PT_OPERATOR \<and> str_eq (pt_lexeme (cur_tok ?st1)) ''=''")
    case f: False
    then have "returns parse_assign_no_semicolon st (syntax_error ?st1)"
      using True by (auto simp: returns_def parse_assign_no_semicolon_def Let_def)
    then show ?thesis
      using later_trans[OF l1 syntax_error_later[OF later_ok[OF l1]]] by (rule completesI)
  next
    case t: True
    have l2: "later ?st1 (next_tok ?st1)" by (rule next_tok_later[OF later_ok[OF l1]])
    from parse_expression_total[OF later_ok[OF l2]] obtain st3
      where r3: "returns parse_expression (next_tok ?st1) st3" and l3: "later (next_tok ?st1) st3"
      by (auto elim: completesE)
    from returns_ex[OF r3] obtain n
      where n: "\<forall>m\<ge>n. parse_expression m (next_tok ?st1) = Some st3" by blast
    have "\<forall>m\<ge>n. parse_assign_no_semicolon m st = Some st3"
      using n True t by (simp add: parse_assign_no_semicolon_def Let_def)
    then have "returns parse_assign_no_semicolon st st3"
      unfolding returns_def by blast
    then show ?thesis
      using later_trans[OF later_trans[OF l1 l2] l3] by (rule completesI)
  qed
qed

lemma header_total:
  assumes ok: "stream_ok st" and ne: "kind (cur_tok st) \<noteq> PT_EOF"
  shows "\<exists>st1. expect_symbol ''('' (next_tok st) = Some st1 \<and> later st st1
               \<and> g_tok_index st < g_tok_index st1"
proof -
  note nt = next_tok_strict[OF ok ne] next_tok_later[OF ok]
  from expect_symbol_total[OF later_ok[OF nt(2)], of "''(''"] obtain st1
    where e: "expect_symbol ''('' (next_tok st) = Some st1" and l: "later (next_tok st) st1"
    by blast
  show ?thesis
    using e later_trans[OF nt(2) l] nt(1) later_index[OF l] by auto
qed

lemma condition_total:
  assumes ok: "stream_ok st1"
  shows "\<exists>st2 st3. returns parse_expression st1 st2 \<and> expect_symbol '')'' st2 = Some st3
                   \<and> later st1 st3"
proof -
  from parse_expression_total[OF ok] obtain st2
    where r: "returns parse_expression st1 st2" and l2: "later st1 st2"
    by (auto elim: completesE)
  from expect_symbol_total[OF later_ok[OF l2], of "'')''"] obtain st3
    where e: "expect_symbol '')'' st2 = Some st3" and l3: "later st2 st3" by blast
  show ?thesis using r e later_trans[OF l2 l3] by blast
qed

lemma parse_while_stmt_step:
  assumes ok: "stream_ok st" and ne: "kind (cur_tok st) \<noteq> PT_EOF"
    and IHb: "\<And>s. stream_ok s \<Longrightarrow> remaining s < remaining st \<Longrightarrow> completes parse_block s"
  shows "progresses parse_while_stmt st"
proof -
  from header_total[OF ok ne] obtain st1
    where e1: "expect_symbol ''('' (next_tok st) = Some st1" and l1: "later st st1"
      and s1: "g_tok_index st < g_tok_index st1" by blast
  from condition_total[OF later_ok[OF l1]] obtain st2 st3
    where r2: "returns parse_expression st1 st2" and e3: "expect_symbol '')'' st2 = Some st3"
      and l3: "later st1 st3" by blast
  have "remaining st3 < remaining st"
    using later_strict_remaining[OF l1 s1] later_remaining[OF l3] by simp
  from IHb[OF later_ok[OF l3] this] obtain st4
    where r4: "returns parse_block st3 st4" and l4: "later st3 st4"
    by (auto elim: completesE)
  from returns_conj[OF r2 returns_ex[OF r4]] obtain n
    where n: "\<forall>m\<ge>n. parse_expression m st1 = Some st2 \<and> parse_block m st3 = Some st4"
    by blast
  have "returns parse_while_stmt st st4"
    by (rule returns_Suc[of n]) (use n e1 e3 in simp)
  moreover have "later st st4" using later_trans[OF later_trans[OF l1 l3] l4] .
  moreover have "g_tok_index st < g_tok_index st4"
    using s1 later_index[OF l3] later_index[OF l4] by linarith
  ultimately show ?thesis by (rule progressesI)
qed

lemma parse_if_stmt_step:
  assumes ok: "stream_ok st" and ne: "kind (cur_tok st) \<noteq> PT_EOF"
    and IHb: "\<And>s. stream_ok s \<Longrightarrow> remaining s < remaining st \<Longrightarrow> completes parse_block s"
  shows "progresses parse_if_stmt st"
proof -
  from header_total[OF ok ne] obtain st1
    where e1: "expect_symbol ''('' (next_tok st) = Some st1" and l1: "later st st1"
      and s1: "g_tok_index st < g_tok_index st1" by blast
  from condition_total[OF later_ok[OF l1]] obtain st2 st3
    where r2: "returns parse_expression st1 st2" and e3: "expect_symbol '')'' st2 = Some st3"
      and l3: "later st1 st3" by blast
  have rem3: "remaining st3 < remaining st"
    using later_strict_remaining[OF l1 s1] later_remaining[OF l3] by simp
  from IHb[OF later_ok[OF l3] rem3] obtain st4
    where r4: "returns parse_block st3 st4" and l4: "later st3 st4"
    by (auto elim: completesE)
  have l04: "later st st4" using later_trans[OF later_trans[OF l1 l3] l4] .
  have s4: "g_tok_index st < g_tok_index st4"
    using s1 later_index[OF l3] later_index[OF l4] by linarith
  show ?thesis
  proof (cases "kind (cur_tok st4) = PT_KEYWORD \<and> str_eq (pt_lexeme (cur_tok st4)) ''else''")
    case False
    from returns_conj[OF r2 returns_ex[OF r4]] obtain n
      where n: "\<forall>m\<ge>n. parse_expression m st1 = Some st2 \<and> parse_block m st3 = Some st4"
      by blast
    have "returns parse_if_stmt st st4"
      by (rule returns_Suc[of n]) (use n e1 e3 False in auto)
    then show ?thesis using l04 s4 by (rule progressesI)
  next
    case True
    have l5: "later st4 (next_tok st4)" by (rule next_tok_later[OF later_ok[OF l4]])
    have "remaining (next_tok st4) < remaining st"
      using later_remaining[OF l5] later_remaining[OF l4] rem3 by linarith
    from IHb[OF later_ok[OF l5] this] obtain st6
      where r6: "returns parse_block (next_tok st4) st6" and l6: "later (next_tok st4) st6"
      by (auto elim: completesE)
    from returns_conj[OF r2 returns_conj[OF r4 returns_ex[OF r6]]] obtain n
      where n: "\<forall>m\<ge>n. parse_expression m st1 = Some st2 \<and> parse_block m st3 = Some st4
                 \<and> parse_block m (next_tok st4) = Some st6"
      by blast
    have "returns parse_if_stmt st st6"
      by (rule returns_Suc[of n]) (use n e1 e3 True in simp)
    moreover have "later st st6" using later_trans[OF later_trans[OF l04 l5] l6] .
    moreover have "g_tok_index st < g_tok_index st6"
      using s4 later_index[OF l5] later_index[OF l6] by linarith
    ultimately show ?thesis by (rule progressesI)
  qed
qed

lemma parse_for_stmt_step:
  assumes ok: "stream_ok st" and ne: "kind (cur_tok st) \<noteq> PT_EOF"
    and IHb: "\<And>s. stream_ok s \<Longrightarrow> remaining s < remaining st \<Longrightarrow> completes parse_block s"
  shows "progresses parse_for_stmt st"
proof -
  from header_total[OF ok ne] obtain st1
    where e1: "expect_symbol ''('' (next_tok st) = Some st1" and l1: "later st st1"
      and s1: "g_tok_index st < g_tok_index st1" by blast
  from parse_assign_stmt_total[OF later_ok[OF l1]] obtain st2
    where r2: "returns parse_assign_stmt st1 st2" and l2: "later st1 st2"
    by (auto elim: completesE)
  from parse_expression_total[OF later_ok[OF l2]] obtain st3
    where r3: "returns parse_expression st2 st3" and l3: "later st2 st3"
    by (auto elim: completesE)
  from expect_symbol_total[OF later_ok[OF l3], of "'';''"] obtain st4
    where e4: "expect_symbol '';'' st3 = Some st4" and l4: "later st3 st4" by blast
  from parse_assign_no_semicolon_total[OF later_ok[OF l4]] obtain st5
    where r5: "returns parse_assign_no_semicolon st4 st5" and l5: "later st4 st5"
    by (auto elim: completesE)
  from expect_symbol_total[OF later_ok[OF l5], of "'')''"] obtain st6
    where e6: "expect_symbol '')'' st5 = Some st6" and l6: "later st5 st6" by blast
  have l16: "later st1 st6"
    using later_trans[OF later_trans[OF later_trans[OF later_trans[OF l2 l3] l4] l5] l6] .
  have "remaining st6 < remaining st"
    using later_strict_remaining[OF l1 s1] later_remaining[OF l16] by simp
  from IHb[OF later_ok[OF l6] this] obtain st7
    where r7: "returns parse_block st6 st7" and l7: "later st6 st7"
    by (auto elim: completesE)
  from returns_conj[OF r2 returns_conj[OF r3 returns_conj[OF r5 returns_ex[OF r7]]]] obtain n
    where n: "\<forall>m\<ge>n. parse_assign_stmt m st1 = Some st2 \<and> parse_expression m st2 = Some st3
               \<and> parse_assign_no_semicolon m st4 = Some st5 \<and> parse_block m st6 = Some st7"
    by blast
  have "returns parse_for_stmt st st7"
    by (rule returns_Suc[of n]) (use n e1 e4 e6 in simp)
  moreover have "later st st7" using later_trans[OF later_trans[OF l1 l16] l7] .
  moreover have "g_tok_index st < g_tok_index st7"
    using s1 later_index[OF l16] later_index[OF l7] by linarith
  ultimately show ?thesis by (rule progressesI)
qed

lemma returns_lift: "returns f st st' \<Longrightarrow> (\<And>m. h (Suc m) st = f m st) \<Longrightarrow> returns h st st'"
proof -
  assume r: "returns f st st'" and eq: "\<And>m. h (Suc m) st = f m st"
  from returns_ex[OF r] obtain n where "\<forall>m\<ge>n. f m st = Some st'" by blast
  then show ?thesis by (intro returns_Suc[of n]) (simp add: eq)
qed

lemma progresses_lift:
  "progresses f st \<Longrightarrow> (\<And>m. h (Suc m) st = f m st) \<Longrightarrow> progresses h st"
  unfolding progresses_def using returns_lift[of f st _ h] by blast

lemma parse_statement_step:
  assumes ok: "stream_ok st"
    and ifs: "kind (cur_tok st) \<noteq> PT_EOF \<Longrightarrow> progresses parse_if_stmt st"
    and whs: "kind (cur_tok st) \<noteq> PT_EOF \<Longrightarrow> progresses parse_while_stmt st"
    and fos: "kind (cur_tok st) \<noteq> PT_EOF \<Longrightarrow> progresses parse_for_stmt st"
  shows "completes parse_statement st
         \<and> (kind (cur_tok st) \<noteq> PT_EOF \<longrightarrow> progresses parse_statement st)"
proof (cases "kind (cur_tok st) = PT_EOF")
  case True
  from panic_recover_total[OF later_ok[OF syntax_error_later[OF ok]]]
  obtain st' where p: "panic_recover (syntax_error st) = Some st'"
    and l: "later (syntax_error st) st'" by blast
  have "returns parse_statement st st'"
    by (rule returns_const) (use True p in simp)
  then show ?thesis
    using True later_trans[OF syntax_error_later[OF ok] l] by (auto intro: completesI)
next
  case ne: False
  have "progresses parse_statement st"
  proof -
    consider (decl) "kind (cur_tok st) = PT_TYPE"
      | (inp) "kind (cur_tok st) = PT_KEYWORD" "str_eq (pt_lexeme (cur_tok st)) ''input''"
      | (prt) "kind (cur_tok st) = PT_KEYWORD"
          "str_eq (pt_lexeme (cur_tok st)) ''print'' \<or> str_eq (pt_lexeme (cur_tok st)) ''writeln''"
      | (ifc) "kind (cur_tok st) = PT_KEYWORD" "str_eq (pt_lexeme (cur_tok st)) ''if''"
      | (whc) "kind (cur_tok st) = PT_KEYWORD" "str_eq (pt_lexeme (cur_tok st)) ''while''"
      | (foc) "kind (cur_tok st) = PT_KEYWORD" "str_eq (pt_lexeme (cur_tok st)) ''for''"
      | (asg) "kind (cur_tok st) = PT_IDENTIFIER"
      | (bad) "kind (cur_tok st) \<noteq> PT_TYPE" "kind (cur_tok st) \<noteq> PT_IDENTIFIER"
          "kind (cur_tok st) = PT_KEYWORD \<longrightarrow>
             \<not> str_eq (pt_lexeme (cur_tok st)) ''input''
           \<and> \<not> str_eq (pt_lexeme (cur_tok st)) ''print''
           \<and> \<not> str_eq (pt_lexeme (cur_tok st)) ''writeln''
           \<and> \<not> str_eq (pt_lexeme (cur_tok st)) ''if''
           \<and> \<not> str_eq (pt_lexeme (cur_tok st)) ''while''
           \<and> \<not> str_eq (pt_lexeme (cur_tok st)) ''for''"
      by blast
    then show ?thesis
    proof cases
      case decl
      from parse_decl_stmt_total[OF ok ne] obtain st'
        where p: "parse_decl_stmt st = Some st'" "later st st'"
          "g_tok_index st < g_tok_index st'" by blast
      have "returns parse_statement st st'"
        by (rule returns_const) (use decl p(1) in simp)
      then show ?thesis using p(2,3) by (rule progressesI)
    next
      case inp
      from parse_input_stmt_total[OF ok ne] obtain st'
        where p: "parse_input_stmt st = Some st'" "later st st'"
          "g_tok_index st < g_tok_index st'" by blast
      have "returns parse_statement st st'"
        by (rule returns_const) (use inp p(1) in simp)
      then show ?thesis using p(2,3) by (rule progressesI)
    next
      case prt
      show ?thesis
        by (rule progresses_lift[OF parse_print_stmt_total[OF ok ne]]) (use prt in auto)
    next
      case ifc
      show ?thesis
        by (rule progresses_lift[OF ifs[OF ne]]) (use ifc in auto)
    next
      case whc
      show ?thesis
        by (rule progresses_lift[OF whs[OF ne]]) (use whc in auto)
    next
      case foc
      show ?thesis
        by (rule progresses_lift[OF fos[OF ne]]) (use foc in auto)
    next
      case asg
      have "progresses parse_assign_stmt st"
        using parse_assign_stmt_total[OF ok] asg by simp
      then show ?thesis
        by (rule progresses_lift) (use asg in auto)
    next
      case bad
      from panic_recover_total[OF later_ok[OF syntax_error_later[OF ok]]] ne
      obtain st' where p: "panic_recover (syntax_error st) = Some st'"
        and l: "later (syntax_error st) st'"
        and s: "g_tok_index (syntax_error st) < g_tok_index st'" by auto
      have "returns parse_statement st st'"
        by (rule returns_const) (use bad p in auto)
      moreover have "later st st'" using later_trans[OF syntax_error_later[OF ok] l] .
      moreover have "g_tok_index st < g_tok_index st'" using s by simp
      ultimately show ?thesis by (rule progressesI)
    qed
  qed
  then show ?thesis using progresses_completes by blast
qed

lemma block_loop_step:
  assumes ok: "stream_ok st"
    and stm: "kind (cur_tok st) \<noteq> PT_EOF \<Longrightarrow> progresses parse_statement st"
    and IHl: "\<And>s. stream_ok s \<Longrightarrow> remaining s < remaining st \<Longrightarrow> completes block_loop s"
  shows "completes block_loop st"
proof (cases "kind (cur_tok st) \<noteq> PT_EOF
          \<and> \<not> (kind (cur_tok st) = PT_SYMBOL \<and> str_eq (pt_lexeme (cur_tok st)) ''}'')")
  case False
  then have "returns block_loop st st" by (intro returns_const) auto
  then show ?thesis using later_refl[OF ok] by (rule completesI)
next
  case True
  then have "progresses parse_statement st" using stm by simp
  then obtain st1 where r1: "returns parse_statement st st1" and l1: "later st st1"
    and s1: "g_tok_index st < g_tok_index st1" by (auto simp: progresses_def)
  from IHl[OF later_ok[OF l1] later_strict_remaining[OF l1 s1]] obtain st2
    where r2: "returns block_loop st1 st2" and l2: "later st1 st2"
    by (auto elim: completesE)
  from returns_conj[OF r1 returns_ex[OF r2]] obtain n
    where n: "\<forall>m\<ge>n. parse_statement m st = Some st1 \<and> block_loop m st1 = Some st2" by blast
  have "returns block_loop st st2"
    by (rule returns_Suc[of n]) (use True n in simp)
  then show ?thesis using later_trans[OF l1 l2] by (rule completesI)
qed

lemma parse_block_step:
  assumes ok: "stream_ok st"
    and stm: "completes parse_statement st"
    and IHl: "\<And>s. stream_ok s \<Longrightarrow> remaining s < remaining st \<Longrightarrow> completes block_loop s"
  shows "completes parse_block st"
proof (cases "kind (cur_tok st) = PT_SYMBOL \<and> str_eq (pt_lexeme (cur_tok st)) ''{''")
  case False
  from stm obtain st1 where r1: "returns parse_statement st st1" and l1: "later st st1"
    by (auto elim: completesE)
  have "returns parse_block st st1"
    by (rule returns_lift[OF r1]) (use False in auto)
  then show ?thesis using l1 by (rule completesI)
next
  case True
  then have ne: "kind (cur_tok st) \<noteq> PT_EOF" by simp
  note nt = next_tok_strict[OF ok ne] next_tok_later[OF ok]
  from IHl[OF later_ok[OF nt(2)]] nt(1) obtain st1
    where r1: "returns block_loop (next_tok st) st1" and l1: "later (next_tok st) st1"
    by (auto elim: completesE)
  from expect_symbol_total[OF later_ok[OF l1], of "''}''"] obtain st2
    where e: "expect_symbol ''}'' st1 = Some st2" and l2: "later st1 st2" by blast
  from returns_ex[OF r1] obtain n
    where n: "\<forall>m\<ge>n. block_loop m (next_tok st) = Some st1" by blast
  have "returns parse_block st st2"
    by (rule returns_Suc[of n]) (use True n e in simp)
  then show ?thesis
    using later_trans[OF later_trans[OF nt(2) l1] l2] by (rule completesI)
qed

lemma statement_total_aux:
  "\<forall>st. stream_ok st \<and> remaining st \<le> k \<longrightarrow>
     completes parse_statement st
     \<and> (kind (cur_tok st) \<noteq> PT_EOF \<longrightarrow> progresses parse_statement st)
     \<and> completes block_loop st \<and> completes parse_block st"
proof (induction k rule: less_induct)
  case (less k)
  have lt: "completes parse_statement s
     \<and> (kind (cur_tok s) \<noteq> PT_EOF \<longrightarrow> progresses parse_statement s)
     \<and> completes block_loop s \<and> completes parse_block s"
    if "stream_ok s" "remaining s < k" for s
    using less.IH[of "remaining s"] that by auto
  have stm: "completes parse_statement s
     \<and> (kind (cur_tok s) \<noteq> PT_EOF \<longrightarrow> progresses parse_statement s)"
    if "stream_ok s" "remaining s \<le> k" for s
  proof (rule parse_statement_step[OF that(1)])
    assume ne: "kind (cur_tok s) \<noteq> PT_EOF"
    show "progresses parse_if_stmt s"
      by (rule parse_if_stmt_step[OF that(1) ne]) (use lt that in auto)
    show "progresses parse_while_stmt s"
      by (rule parse_while_stmt_step[OF that(1) ne]) (use lt that in auto)
    show "progresses parse_for_stmt s"
      by (rule parse_for_stmt_step[OF that(1) ne]) (use lt that in auto)
  qed
  have bl: "completes block_loop s" if "stream_ok s" "remaining s \<le> k" for s
    by (rule block_loop_step[OF that(1)]) (use stm lt that in auto)
  have bk: "completes parse_block s" if "stream_ok s" "remaining s \<le> k" for s
    by (rule parse_block_step[OF that(1)]) (use stm lt that in auto)
  show ?case using stm bl bk by blast
qed

lemma parse_statement_total:
  "stream_ok st \<Longrightarrow> kind (cur_tok st) \<noteq> PT_EOF \<Longrightarrow> progresses parse_statement st"
  using statement_total_aux[of "remaining st"] by simp

lemma parse_stmt_list_total:
  "stream_ok st \<Longrightarrow>
   \<exists>st'. returns parse_stmt_list st st' \<and> later st st' \<and> kind (cur_tok st') = PT_EOF"
proof (induction "remaining st" arbitrary: st rule: less_induct)
  case less
  show ?case
  proof (cases "kind (cur_tok st) \<noteq> PT_EOF")
    case False
    then have "returns parse_stmt_list st st" by (intro returns_const) simp
    then show ?thesis using False later_refl[OF less.prems] by blast
  next
    case True
    from parse_statement_total[OF less.prems True] obtain st1
      where r1: "returns parse_statement st st1" and l1: "later st st1"
        and s1: "g_tok_index st < g_tok_index st1" by (auto simp: progresses_def)
    from less.hyps[OF later_strict_remaining[OF l1 s1] later_ok[OF l1]] obtain st2
      where r2: "returns parse_stmt_list st1 st2" and l2: "later st1 st2"
        and e2: "kind (cur_tok st2) = PT_EOF" by blast
    from returns_conj[OF r1 returns_ex[OF r2]] obtain n
      where n: "\<forall>m\<ge>n. parse_statement m st = Some st1 \<and> parse_stmt_list m st1 = Some st2"
      by blast
    have "returns parse_stmt_list st st2"
      by (rule returns_Suc[of n]) (use True n in simp)
    then show ?thesis using later_trans[OF l1 l2] e2 by blast
  qed
qed

lemma stmt_list_iterations_bound:
  "stream_ok st \<Longrightarrow>
   \<exists>n k. (\<forall>m\<ge>n. stmt_list_iterations m st = Some k) \<and> k \<le> remaining st"
proof (induction "remaining st" arbitrary: st rule: less_induct)
  case less
  show ?case
  proof (cases "kind (cur_tok st) \<noteq> PT_EOF")
    case False
    have "\<forall>m\<ge>Suc 0. stmt_list_iterations m st = Some 0"
    proof (intro allI impI)
      fix m assume "Suc 0 \<le> m"
      then obtain m' where "m = Suc m'" by (cases m) auto
      then show "stmt_list_iterations m st = Some 0" using False by simp
    qed
    then show ?thesis by blast
  next
    case True
    from parse_statement_total[OF less.prems True] obtain st1
      where r1: "returns parse_statement st st1" and l1: "later st st1"
        and s1: "g_tok_index st < g_tok_index st1" by (auto simp: progresses_def)
    note rem1 = later_strict_remaining[OF l1 s1]
    from less.hyps[OF rem1 later_ok[OF l1]] obtain n2 k
      where r2: "\<forall>m\<ge>n2. stmt_list_iterations m st1 = Some k" and k: "k \<le> remaining st1"
      by blast
    from returns_ex[OF r1] obtain n1 where n1: "\<forall>m\<ge>n1. parse_statement m st = Some st1"
      by blast
    have "\<forall>m\<ge>Suc (max n1 n2). stmt_list_iterations m st = Some (Suc k)"
    proof (intro allI impI)
      fix m assume "Suc (max n1 n2) \<le> m"
      then obtain m' where "m = Suc m'" "n1 \<le> m'" "n2 \<le> m'" by (cases m) auto
      then show "stmt_list_iterations m st = Some (Suc k)" using True n1 r2 by simp
    qed
    moreover have "Suc k \<le> remaining st" using k rem1 by simp
    ultimately show ?thesis by blast
  qed
qed

text \<open>
  Claim C4. On a loaded token sequence whose last element is \<open>eof\<close>, with the parser's
  index inside the sequence, \<open>parse_program\<close> returns: from some amount of fuel on, every
  run gives the same final state, whose current token is \<open>eof\<close>. Whenever
  \<open>parse_statement\<close> is entered on a token other than \<open>eof\<close>, it returns with a
  strictly greater token index (and the index never passes the last token), so the body
  of the statement loop of \<open>parse_stmt_list\<close> runs at most once per token before the
  final \<open>eof\<close>.
\<close>

theorem parse_statement_progress:
  assumes "g_tok_count st = length (g_tokens st)"
    and "g_tokens st \<noteq> []"
    and "kind (last (g_tokens st)) = PT_EOF"
    and "g_tok_index st < g_tok_count st"
  shows "(\<exists>n st'. (\<forall>m\<ge>n. parse_program m st = Some st') \<and> kind (cur_tok st') = PT_EOF)
       \<and> (\<exists>n k. (\<forall>m\<ge>n. stmt_list_iterations m st = Some k)
                  \<and> k \<le> g_tok_count st - 1 - g_tok_index st)
       \<and> (kind (cur_tok st) \<noteq> PT_EOF \<longrightarrow>
            (\<exists>n st'. (\<forall>m\<ge>n. parse_statement m st = Some st')
                     \<and> g_tok_index st < g_tok_index st'
                     \<and> g_tok_index st' < g_tok_count st
                     \<and> g_tokens st' = g_tokens st))"
proof -
  have ok: "stream_ok st" using assms by (simp add: stream_ok_def)
  from parse_stmt_list_total[OF ok] obtain st' n
    where "\<forall>m\<ge>n. parse_stmt_list m st = Some st'" "kind (cur_tok st') = PT_EOF"
    by (auto simp: returns_def)
  then have a: "\<exists>n st'. (\<forall>m\<ge>n. parse_program m st = Some st') \<and> kind (cur_tok st') = PT_EOF"
    unfolding parse_program_def by blast
  have b: "\<exists>n st'. (\<forall>m\<ge>n. parse_statement m st = Some st')
                     \<and> g_tok_index st < g_tok_index st'
                     \<and> g_tok_index st' < g_tok_count st
                     \<and> g_tokens st' = g_tokens st"
    if "kind (cur_tok st) \<noteq> PT_EOF"
  proof -
    from parse_statement_total[OF ok that] obtain st' n
      where r: "\<forall>m\<ge>n. parse_statement m st = Some st'" and l: "later st st'"
        and s: "g_tok_index st < g_tok_index st'"
      by (auto simp: progresses_def returns_def)
    have "g_tok_index st' < g_tok_count st" "g_tokens st' = g_tokens st"
      using l by (auto simp: later_def stream_ok_def)
    with r s show ?thesis by blast
  qed
  have c: "\<exists>n k. (\<forall>m\<ge>n. stmt_list_iterations m st = Some k)
                  \<and> k \<le> g_tok_count st - 1 - g_tok_index st"
    using stmt_list_iterations_bound[OF ok] by (simp add: remaining_def)
  show ?thesis using a b c by blast
qed

definition tok :: "ParserTokKind \<Rightarrow> string \<Rightarrow> ParserToken" where
  "tok k s = \<lparr>kind = k, pt_lexeme = s\<rparr>"

definition malformed_stream :: pstate where
  "malformed_stream =
     \<lparr>g_tokens = [tok PT_OPERATOR ''+'', tok PT_SYMBOL '')'', tok PT_EOF ''EOF''],
      g_tok_count = 3, g_tok_index = 0, g_error = False\<rparr>"

theorem parse_statement_progress_witness:
  "kind (cur_tok malformed_stream) \<noteq> PT_EOF
   \<and> (\<exists>n st'. (\<forall>m\<ge>n. parse_statement m malformed_stream = Some st')
               \<and> g_tok_index malformed_stream < g_tok_index st')
   \<and> (\<exists>n st'. (\<forall>m\<ge>n. parse_program m malformed_stream = Some st')
               \<and> kind (cur_tok st') = PT_EOF)"
proof -
  have c: "kind (cur_tok malformed_stream) \<noteq> PT_EOF"
    by (simp add: malformed_stream_def cur_tok_def cur_tok_slot_def tok_def)
  have "g_tok_count malformed_stream = length (g_tokens malformed_stream)"
    "g_tokens malformed_stream \<noteq> []"
    "kind (last (g_tokens malformed_stream)) = PT_EOF"
    "g_tok_index malformed_stream < g_tok_count malformed_stream"
    by (simp_all add: malformed_stream_def tok_def)
  from parse_statement_progress[OF this] c show ?thesis by blast
qed

text \<open>
  Claim C9. On a non-empty loaded sequence \<open>cur_tok\<close> reads a slot inside the sequence:
  the token at the current index while the index is below the count, the last stored
  token (the \<open>eof\<close> token of a loaded stream) otherwise. \<open>next_tok\<close> changes nothing
  but the index, which it increments by one only while the result stays at most
  \<open>count - 1\<close>; all parsing functions read tokens through \<open>cur_tok\<close> only.
\<close>

theorem cur_tok_in_range:
  assumes "g_tok_count st = length (g_tokens st)"
    and "g_tokens st \<noteq> []"
  shows "cur_tok_slot st < g_tok_count st
       \<and> cur_tok st = g_tokens st ! cur_tok_slot st
       \<and> (g_tok_index st < g_tok_count st \<longrightarrow> cur_tok st = g_tokens st ! g_tok_index st)
       \<and> (g_tok_index st \<ge> g_tok_count st \<longrightarrow> cur_tok st = last (g_tokens st))
       \<and> (kind (last (g_tokens st)) = PT_EOF \<and> g_tok_index st \<ge> g_tok_count st \<longrightarrow>
            kind (cur_tok st) = PT_EOF)
       \<and> (g_tok_index (next_tok st) = g_tok_index st
          \<or> g_tok_index (next_tok st) = g_tok_index st + 1
            \<and> g_tok_index (next_tok st) \<le> g_tok_count st - 1)
       \<and> g_tokens (next_tok st) = g_tokens st
       \<and> g_tok_count (next_tok st) = g_tok_count st"
proof -
  have n: "0 < length (g_tokens st)" using assms(2) by simp
  have a: "cur_tok_slot st < g_tok_count st"
    using assms(1) n by (simp add: cur_tok_slot_def)
  have b: "cur_tok st = last (g_tokens st)" if "g_tok_index st \<ge> g_tok_count st"
    using that assms by (simp add: cur_tok_def cur_tok_slot_def last_conv_nth)
  have c: "cur_tok st = g_tokens st ! g_tok_index st" if "g_tok_index st < g_tok_count st"
    using that by (simp add: cur_tok_def cur_tok_slot_def)
  have d: "g_tok_index (next_tok st) = g_tok_index st
          \<or> g_tok_index (next_tok st) = g_tok_index st + 1
            \<and> g_tok_index (next_tok st) \<le> g_tok_count st - 1"
    by (auto simp: next_tok_def)
  have e: "g_tokens (next_tok st) = g_tokens st" "g_tok_count (next_tok st) = g_tok_count st"
    by (simp_all add: next_tok_def)
  show ?thesis using a b c d e by (simp add: cur_tok_def)
qed

definition past_end_state :: pstate where
  "past_end_state = malformed_stream\<lparr>g_tok_index := 7\<rparr>"

theorem cur_tok_in_range_witness:
  "g_tok_count past_end_state \<le> g_tok_index past_end_state
   \<and> cur_tok_slot past_end_state < g_tok_count past_end_state
   \<and> kind (cur_tok past_end_state) = PT_EOF"
proof -
  have h: "g_tok_count past_end_state = length (g_tokens past_end_state)"
    "g_tokens past_end_state \<noteq> []"
    by (simp_all add: past_end_state_def malformed_stream_def)
  have e: "kind (last (g_tokens past_end_state)) = PT_EOF
           \<and> g_tok_count past_end_state \<le> g_tok_index past_end_state"
    by (simp add: past_end_state_def malformed_stream_def tok_def)
  note t = cur_tok_in_range[OF h]
  have "cur_tok_slot past_end_state < g_tok_count past_end_state"
    using t by (rule conjunct1)
  moreover have "kind (cur_tok past_end_state) = PT_EOF"
    using t[THEN conjunct2, THEN conjunct2, THEN conjunct2, THEN conjunct2, THEN conjunct1] e
    by blast
  ultimately show ?thesis using e by blast
qed

section \<open>Token table: writer (KSHARP2.0.C) and loader (KSHARP_SYNTAX2.0.c)\<close>

text \<open>
  The lexer's \<open>main\<close> writes \<open>SymbolTable.txt\<close>: \<open>write_head\<close>, one \<open>write_row\<close> per
  token with the displayed text \<open>shown\<close> (the \<open>extra\<close> text if there is one, else the
  lexeme, else the empty string) and the label \<open>tname\<close>, then \<open>write_foot\<close>.
  \<open>left_justify w\<close> is the \<open>printf\<close> conversion \<open>%-ws\<close>. The file is a \<open>string\<close>.

  The loader reads the file with \<open>fgets\<close> into a buffer of \<open>MAX_LINE\<close> bytes:
  \<open>take_line\<close> takes at most \<open>MAX_LINE - 1\<close> characters, up to and including the first
  newline, and the buffer is then read as a C string. \<open>trim\<close> removes the white space
  (\<open>isspace\<close> of the C locale) at both ends. \<open>sscanf_row\<close> is the call
  \<open>sscanf(line, "| %127[^|]| %127[^|]|", rawLex, rawKind)\<close>, with \<open>None\<close> for every
  result other than 2: a literal \<open>|\<close>, optional white space, a non-empty field of at most
  127 characters other than \<open>|\<close>, a literal \<open>|\<close>, optional white space and a second such
  field. \<open>parse_row\<close> is the part of the loop body that decides whether the line is a data
  row and builds its token, \<open>store_row\<close> the guarded store into
  \<open>g_tokens[g_tok_count++]\<close>, and \<open>append_eof\<close> the unguarded store after the loop.
  \<open>g_tokens\<close> is the list of the slots written so far, so a list longer than
  \<open>MAX_TOKENS\<close> stands for a write past the end of the array. A file that cannot be
  opened is \<open>None\<close>.
\<close>

definition tname :: "TokenType \<Rightarrow> string" where
  "tname t =
     (case t of
        TOK_IDENTIFIER \<Rightarrow> ''identifier''
      | TOK_KEYWORD \<Rightarrow> ''keyword''
      | TOK_RESERVED_TYPE \<Rightarrow> ''type''
      | TOK_CONST_INT \<Rightarrow> ''const_int''
      | TOK_CONST_FLOAT \<Rightarrow> ''const_float''
      | TOK_CONST_CHAR \<Rightarrow> ''const_char''
      | TOK_CONST_STRING \<Rightarrow> ''const_string''
      | TOK_CONST_BOOL \<Rightarrow> ''const_bool''
      | TOK_OP_ARITH \<Rightarrow> ''operator''
      | TOK_OP_REL \<Rightarrow> ''operator''
      | TOK_OP_LOGIC \<Rightarrow> ''operator''
      | TOK_ASSIGN \<Rightarrow> ''operator''
      | TOK_DELIM \<Rightarrow> ''punctuator''
      | TOK_BRACKET \<Rightarrow> ''punctuator''
      | TOK_COMMENT \<Rightarrow> ''comment''
      | TOK_NOISE \<Rightarrow> ''noise''
      | TOK_UNKNOWN \<Rightarrow> ''unknown''
      | TOK_EOF \<Rightarrow> ''eof'')"

definition left_justify :: "nat \<Rightarrow> string \<Rightarrow> string" where
  "left_justify w s = s @ replicate (w - length s) CHR '' ''"

definition border :: string where
  "border = ''+----------------------+------------------+'' @ [CHR 0x0A]"

definition write_head :: "string \<Rightarrow> string" where
  "write_head src =
     ''Source: '' @ src @ [CHR 0x0A] @ border
     @ ''| '' @ left_justify 20 ''Lexeme'' @ '' | '' @ left_justify 16 ''Token'' @ '' |''
     @ [CHR 0x0A] @ border"

definition write_row :: "string \<Rightarrow> string \<Rightarrow> string" where
  "write_row lx tk =
     (let n = length lx;
          lex1 = (if n > 20 then take 19 lx @ ''.'' else lx)
      in ''| '' @ left_justify 20 lex1 @ '' | '' @ left_justify 16 tk @ '' |'' @ [CHR 0x0A])"

definition write_foot :: string where
  "write_foot = border"

definition shown :: "Token \<Rightarrow> string" where
  "shown t =
     (case extra t of
        Some e \<Rightarrow> (if e \<noteq> [] then e else (case lexeme t of Some l \<Rightarrow> l | None \<Rightarrow> []))
      | None \<Rightarrow> (case lexeme t of Some l \<Rightarrow> l | None \<Rightarrow> []))"

definition symbol_table :: "string \<Rightarrow> Token list \<Rightarrow> string" where
  "symbol_table path ts =
     write_head path @ concat (map (\<lambda>t. write_row (shown t) (tname (type t))) ts) @ write_foot"

definition isspace :: "char \<Rightarrow> bool" where
  "isspace c = (c = CHR '' '' \<or> c = CHR 0x09 \<or> c = CHR 0x0A \<or> c = CHR 0x0B
                \<or> c = CHR 0x0C \<or> c = CHR 0x0D)"

definition trim :: "string \<Rightarrow> string" where
  "trim s = dropWhile isspace (rev (dropWhile isspace (rev s)))"

fun str_starts_with :: "string \<Rightarrow> string \<Rightarrow> bool" where
  "str_starts_with s [] = True"
| "str_starts_with [] (p # ps) = False"
| "str_starts_with (c # cs) (p # ps) = (if c \<noteq> p then False else str_starts_with cs ps)"

fun contains_from :: "string \<Rightarrow> string \<Rightarrow> bool" where
  "contains_from [] sub = False"
| "contains_from (c # cs) sub =
     (if str_starts_with (c # cs) sub then True else contains_from cs sub)"

definition str_contains :: "string \<Rightarrow> string \<Rightarrow> bool" where
  "str_contains s sub = (if sub = [] then True else contains_from s sub)"

definition map_kind :: "string \<Rightarrow> ParserTokKind" where
  "map_kind k =
     (if str_eq k ''keyword'' then PT_KEYWORD
      else if str_eq k ''identifier'' then PT_IDENTIFIER
      else if str_eq k ''type'' then PT_TYPE
      else if str_eq k ''const_int'' then PT_INTCONST
      else if str_eq k ''const_float'' then PT_FLOATCONST
      else if str_eq k ''const_char'' then PT_CHARCONST
      else if str_eq k ''const_bool'' then PT_BOOLCONST
      else if str_eq k ''operator'' then PT_OPERATOR
      else if str_eq k ''punctuator'' then PT_SYMBOL
      else if str_eq k ''comment'' then PT_COMMENT
      else if str_eq k ''noise'' then PT_NOISE
      else if str_eq k ''eof'' then PT_EOF
      else PT_UNKNOWN)"

fun take_line :: "nat \<Rightarrow> string \<Rightarrow> string" where
  "take_line 0 s = []"
| "take_line (Suc n) [] = []"
| "take_line (Suc n) (c # cs) = (if c = CHR 0x0A then [c] else c # take_line n cs)"

definition fgets :: "nat \<Rightarrow> string \<Rightarrow> (string \<times> string) option" where
  "fgets sz content =
     (if content = [] then None
      else (let chunk = take_line (sz - 1) content
            in Some (c_str chunk, drop (length chunk) content)))"

definition scan_set :: "string \<Rightarrow> string" where
  "scan_set s = take 127 (takeWhile (\<lambda>c. c \<noteq> CHR ''|'') s)"

definition sscanf_row :: "string \<Rightarrow> (string \<times> string) option" where
  "sscanf_row ln =
     (case ln of
        [] \<Rightarrow> None
      | c # r1 \<Rightarrow>
          if c \<noteq> CHR ''|'' then None
          else
            (let r2 = dropWhile isspace r1;
                 rawLex = scan_set r2
             in if rawLex = [] then None
                else
                  (case drop (length rawLex) r2 of
                     [] \<Rightarrow> None
                   | d # r4 \<Rightarrow>
                       if d \<noteq> CHR ''|'' then None
                       else
                         (let r5 = dropWhile isspace r4;
                              rawKind = scan_set r5
                          in if rawKind = [] then None else Some (rawLex, rawKind)))))"

definition parse_row :: "string \<Rightarrow> ParserToken option" where
  "parse_row ln0 =
     (let ln = trim ln0 in
      if ln = [] then None
      else if str_starts_with ln ''Source:'' then None
      else if hd ln = CHR ''+'' \<or> hd ln = CHR ''-'' then None
      else if str_contains ln ''Lexeme'' \<and> str_contains ln ''Token'' then None
      else if hd ln \<noteq> CHR ''|'' then None
      else
        (case sscanf_row ln of
           None \<Rightarrow> None
         | Some (rawLex, rawKind) \<Rightarrow>
             Some \<lparr>kind = map_kind (trim rawKind),
                   pt_lexeme = take (MAX_LEXEME - 1) (trim rawLex)\<rparr>))"

definition store_row :: "ParserToken list \<Rightarrow> string \<Rightarrow> ParserToken list" where
  "store_row toks ln =
     (case parse_row ln of
        None \<Rightarrow> toks
      | Some pt \<Rightarrow> (if length toks < MAX_TOKENS then toks @ [pt] else toks))"

lemma take_line_length: "length (take_line n s) \<le> length s"
  by (induction n s rule: take_line.induct) auto

lemma take_line_nonempty: "s \<noteq> [] \<Longrightarrow> take_line (Suc n) s \<noteq> []"
  by (cases s) auto

lemma fgets_shorter: "fgets MAX_LINE content = Some (ln, rest) \<Longrightarrow> length rest < length content"
  using take_line_nonempty[of content 510] take_line_length[of 511 content]
  by (auto simp: fgets_def MAX_LINE_def Let_def split: if_splits)

function load_loop :: "string \<Rightarrow> ParserToken list \<Rightarrow> ParserToken list" where
  "load_loop content toks =
     (case fgets MAX_LINE content of
        None \<Rightarrow> toks
      | Some (ln, rest) \<Rightarrow> load_loop rest (store_row toks ln))"
  by pat_completeness auto
termination
  by (relation "measure (\<lambda>(content, toks). length content)")
     (auto dest: fgets_shorter)

definition append_eof :: "ParserToken list \<Rightarrow> ParserToken list" where
  "append_eof toks =
     (if length toks = 0 \<or> kind (toks ! (length toks - 1)) \<noteq> PT_EOF
      then toks @ [\<lparr>kind = PT_EOF, pt_lexeme = ''EOF''\<rparr>]
      else toks)"

definition load_tokens_from_symbol_table :: "string option \<Rightarrow> pstate \<Rightarrow> nat \<times> pstate" where
  "load_tokens_from_symbol_table file st =
     (case file of
        None \<Rightarrow> (0, st)
      | Some content \<Rightarrow>
          (let toks = append_eof (load_loop content [])
           in (length toks, st\<lparr>g_tokens := toks, g_tok_count := length toks\<rparr>)))"

definition globals0 :: pstate where
  "globals0 = \<lparr>g_tokens = [], g_tok_count = 0, g_tok_index = 0, g_error = False\<rparr>"

subsection \<open>Reading the file line by line\<close>

declare load_loop.simps [simp del]

lemma take_line_complete:
  "CHR 0x0A \<notin> set body \<Longrightarrow> length body < n \<Longrightarrow>
   take_line n (body @ CHR 0x0A # rest) = body @ [CHR 0x0A]"
proof (induction body arbitrary: n)
  case Nil
  then show ?case by (cases n) auto
next
  case (Cons c body)
  then obtain m where "n = Suc m" by (cases n) auto
  with Cons show ?case by auto
qed

definition complete_line :: "string \<Rightarrow> bool" where
  "complete_line l =
     (\<exists>body. l = body @ [CHR 0x0A] \<and> CHR 0x0A \<notin> set body \<and> CHR 0x00 \<notin> set body
             \<and> length body < MAX_LINE - 1)"

lemma c_str_no_nul: "CHR 0x00 \<notin> set s \<Longrightarrow> c_str s = s"
  by (auto simp: c_str_def)

lemma load_loop_Nil: "load_loop [] toks = toks"
  by (simp add: load_loop.simps[of "[]"] fgets_def)

lemma load_loop_line:
  assumes "complete_line l"
  shows "load_loop (l @ rest) toks = load_loop rest (store_row toks l)"
proof -
  from assms obtain body where b: "l = body @ [CHR 0x0A]" "CHR 0x0A \<notin> set body"
    "CHR 0x00 \<notin> set body" "length body < MAX_LINE - 1"
    by (auto simp: complete_line_def)
  have t: "take_line (MAX_LINE - 1) (l @ rest) = l"
    using take_line_complete[OF b(2) b(4), of rest] b(1) by simp
  have "CHR 0x00 \<notin> set l" using b(1,3) by simp
  then have c: "c_str l = l" by (rule c_str_no_nul)
  have "l @ rest \<noteq> []" using b(1) by simp
  then have "fgets MAX_LINE (l @ rest) = Some (l, rest)"
    using t c by (simp add: fgets_def Let_def)
  then show ?thesis by (simp add: load_loop.simps[of "l @ rest"])
qed

lemma load_loop_lines:
  "\<forall>l\<in>set ls. complete_line l \<Longrightarrow>
   load_loop (concat ls @ rest) toks = load_loop rest (foldl store_row toks ls)"
proof (induction ls arbitrary: toks)
  case Nil
  then show ?case by simp
next
  case (Cons l ls)
  then show ?case using load_loop_line[of l "concat ls @ rest" toks] by simp
qed

lemma foldl_store_row_skip:
  "\<forall>l\<in>set ls. parse_row l = None \<Longrightarrow> foldl store_row toks ls = toks"
  by (induction ls arbitrary: toks) (auto simp: store_row_def)

lemma foldl_store_row_rows:
  assumes "length toks \<le> MAX_TOKENS"
    and "list_all2 (\<lambda>l p. parse_row l = Some p) ls ps"
  shows "foldl store_row toks ls = take MAX_TOKENS (toks @ ps)"
  using assms(2,1)
proof (induction ls ps arbitrary: toks rule: list_all2_induct)
  case Nil
  then show ?case by simp
next
  case (Cons l ls p ps)
  show ?case
  proof (cases "length toks < MAX_TOKENS")
    case True
    then have "store_row toks l = toks @ [p]" using Cons.hyps(1) by (simp add: store_row_def)
    moreover have "length (toks @ [p]) \<le> MAX_TOKENS" using True by simp
    ultimately show ?thesis using Cons.IH[of "toks @ [p]"] by simp
  next
    case False
    then have "store_row toks l = toks" using Cons.hyps(1) by (simp add: store_row_def)
    then show ?thesis using Cons.IH[OF Cons.prems] False Cons.prems by simp
  qed
qed

subsection \<open>Fields of a data row\<close>

definition plain_lexeme :: "string \<Rightarrow> bool" where
  "plain_lexeme s =
     (s \<noteq> [] \<and> length s \<le> 20
      \<and> CHR ''|'' \<notin> set s \<and> CHR 0x0A \<notin> set s \<and> CHR 0x00 \<notin> set s
      \<and> \<not> isspace (hd s) \<and> \<not> isspace (last s)
      \<and> \<not> (str_contains s ''Lexeme'' \<and> str_contains s ''Token''))"

definition label_ok :: "string \<Rightarrow> bool" where
  "label_ok lab =
     (lab \<noteq> [] \<and> length lab \<le> 16
      \<and> (\<forall>c\<in>set lab. c \<noteq> CHR ''|'' \<and> c \<noteq> CHR 0x0A \<and> c \<noteq> CHR 0x00 \<and> c \<noteq> CHR ''L''
                       \<and> c \<noteq> CHR ''T'' \<and> \<not> isspace c))"

lemma tname_ok: "label_ok (tname ty)"
  by (cases ty) (simp_all add: tname_def label_ok_def isspace_def)

lemma str_starts_with_frame:
  "T \<noteq> [] \<Longrightarrow> p \<notin> set T \<Longrightarrow> str_starts_with (x @ p # post) T = str_starts_with x T"
proof (induction x T rule: str_starts_with.induct)
  case (1 s)
  then show ?case by simp
next
  case (2 t ts)
  then show ?case by simp
next
  case (3 c cs t ts)
  then show ?case by (cases ts) auto
qed

lemma contains_from_pre:
  "T \<noteq> [] \<Longrightarrow> hd T \<notin> set pre \<Longrightarrow> contains_from (pre @ x) T = contains_from x T"
proof (induction pre)
  case Nil
  then show ?case by simp
next
  case (Cons c pre)
  then obtain t ts where T: "T = t # ts" by (cases T) auto
  with Cons.prems have "c \<noteq> t" by auto
  then have "\<not> str_starts_with (c # pre @ x) T" using T by simp
  then show ?case using Cons by simp
qed

lemma contains_from_post:
  assumes "T \<noteq> []" "hd T \<notin> set (p # post)" "p \<notin> set T"
  shows "contains_from (s @ p # post) T = contains_from s T"
proof (induction s)
  case Nil
  have "contains_from ((p # post) @ []) T = contains_from [] T"
    using assms(1,2) by (rule contains_from_pre)
  then show ?case by simp
next
  case (Cons c s)
  have "str_starts_with ((c # s) @ p # post) T = str_starts_with (c # s) T"
    using assms(1,3) by (rule str_starts_with_frame)
  then show ?case using Cons by simp
qed

lemma str_contains_frame:
  assumes "T \<noteq> []" "hd T \<notin> set pre" "hd T \<notin> set (p # post)" "p \<notin> set T"
  shows "str_contains (pre @ s @ p # post) T = str_contains s T"
  using contains_from_pre[OF assms(1,2), of "s @ p # post"]
    contains_from_post[OF assms(1,3,4), of s] assms(1)
  by (simp add: str_contains_def)

lemma trim_padded:
  assumes "s \<noteq> []" "\<not> isspace (hd s)" "\<not> isspace (last s)" "\<forall>c\<in>set w. isspace c"
  shows "trim (s @ w) = s"
proof -
  have "dropWhile isspace (rev w @ rev s) = dropWhile isspace (rev s)"
    using assms(4) by (intro dropWhile_append2) simp
  moreover have "dropWhile isspace (rev s) = rev s"
    using assms(1,3) by (cases "rev s") (auto simp: hd_rev[symmetric])
  moreover have "dropWhile isspace s = s"
    using assms(1,2) by (cases s) auto
  ultimately show ?thesis by (simp add: trim_def)
qed

lemma scan_set_field:
  assumes "CHR ''|'' \<notin> set F" "length F \<le> 127"
  shows "scan_set (F @ CHR ''|'' # rest) = F"
proof -
  have "takeWhile (\<lambda>c. c \<noteq> CHR ''|'') (F @ CHR ''|'' # rest)
        = takeWhile (\<lambda>c. c \<noteq> CHR ''|'') F"
    by (rule takeWhile_tail) simp
  moreover have "takeWhile (\<lambda>c. c \<noteq> CHR ''|'') F = F"
    using assms(1) by (auto simp: takeWhile_eq_all_conv)
  ultimately have "takeWhile (\<lambda>c. c \<noteq> CHR ''|'') (F @ CHR ''|'' # rest) = F"
    by simp
  then show ?thesis using assms(2) by (simp add: scan_set_def)
qed

lemma sscanf_fields:
  assumes "F1 \<noteq> []" "CHR ''|'' \<notin> set F1" "\<not> isspace (hd F1)" "length F1 \<le> 127"
    and "F2 \<noteq> []" "CHR ''|'' \<notin> set F2" "\<not> isspace (hd F2)" "length F2 \<le> 127"
  shows "sscanf_row (CHR ''|'' # CHR '' '' # F1 @ CHR ''|'' # CHR '' '' # F2 @ CHR ''|'' # rest)
         = Some (F1, F2)"
proof -
  have sp: "isspace CHR '' ''" by (simp add: isspace_def)
  have d1: "dropWhile isspace (CHR '' '' # F1 @ CHR ''|'' # CHR '' '' # F2 @ CHR ''|'' # rest)
            = F1 @ CHR ''|'' # CHR '' '' # F2 @ CHR ''|'' # rest"
    using assms(1,3) sp by (cases F1) auto
  have s1: "scan_set (F1 @ CHR ''|'' # CHR '' '' # F2 @ CHR ''|'' # rest) = F1"
    using assms(2,4) by (rule scan_set_field)
  have d2: "dropWhile isspace (CHR '' '' # F2 @ CHR ''|'' # rest) = F2 @ CHR ''|'' # rest"
    using assms(5,7) sp by (cases F2) auto
  have s2: "scan_set (F2 @ CHR ''|'' # rest) = F2"
    using assms(6,8) by (rule scan_set_field)
  show ?thesis
    by (simp add: sscanf_row_def d1 s1 d2 s2 Let_def assms(1,5) del: dropWhile.simps)
qed

lemma complete_lineI:
  "CHR 0x0A \<notin> set body \<Longrightarrow> CHR 0x00 \<notin> set body \<Longrightarrow> length body < MAX_LINE - 1 \<Longrightarrow>
   complete_line (body @ [CHR 0x0A])"
  unfolding complete_line_def by blast

lemma isspace_space: "isspace CHR '' ''" and isspace_nl: "isspace CHR 0x0A"
  and not_isspace_bar: "\<not> isspace CHR ''|''"
  by (simp_all add: isspace_def)

definition conv_token :: "string \<Rightarrow> string \<Rightarrow> ParserToken" where
  "conv_token s lab = \<lparr>kind = map_kind lab, pt_lexeme = s\<rparr>"

lemma write_row_shape:
  assumes "length s \<le> 20"
  shows "write_row s lab =
     (CHR ''|'' # CHR '' '' # (s @ replicate (20 - length s) CHR '' '' @ '' '')
      @ CHR ''|'' # CHR '' '' # (lab @ replicate (16 - length lab) CHR '' '' @ '' '')
      @ ''|'') @ [CHR 0x0A]"
  using assms by (simp add: write_row_def left_justify_def Let_def)

lemma parse_row_write_row:
  assumes p: "plain_lexeme s" and l: "label_ok lab"
  shows "parse_row (write_row s lab) = Some (conv_token s lab)"
    and "complete_line (write_row s lab)"
proof -
  let ?pad1 = "replicate (20 - length s) CHR '' ''"
  let ?pad2 = "replicate (16 - length lab) CHR '' ''"
  let ?F1 = "s @ ?pad1 @ '' ''"
  let ?F2 = "lab @ ?pad2 @ '' ''"
  let ?B = "CHR ''|'' # CHR '' '' # ?F1 @ CHR ''|'' # CHR '' '' # ?F2 @ ''|''"
  from p have s: "s \<noteq> []" "length s \<le> 20" "CHR ''|'' \<notin> set s" "CHR 0x0A \<notin> set s"
    "CHR 0x00 \<notin> set s" "\<not> isspace (hd s)" "\<not> isspace (last s)"
    "\<not> (str_contains s ''Lexeme'' \<and> str_contains s ''Token'')"
    by (simp_all add: plain_lexeme_def)
  from l have lab: "lab \<noteq> []" "length lab \<le> 16" "CHR ''|'' \<notin> set lab" "CHR 0x0A \<notin> set lab"
    "CHR 0x00 \<notin> set lab" "CHR ''L'' \<notin> set lab" "CHR ''T'' \<notin> set lab"
    "\<not> isspace (hd lab)" "\<not> isspace (last lab)"
    by (auto simp: label_ok_def)
  have w: "write_row s lab = ?B @ [CHR 0x0A]" using write_row_shape[OF s(2)] by simp
  have len: "length ?B = 43" using s(2) lab(2) by simp
  have "CHR 0x0A \<notin> set ?B" "CHR 0x00 \<notin> set ?B" using s(4,5) lab(4,5) by auto
  then show "complete_line (write_row s lab)"
    unfolding w using len by (intro complete_lineI) (simp_all add: MAX_LINE_def)
  have t: "trim (?B @ [CHR 0x0A]) = ?B"
    by (rule trim_padded) (simp_all add: not_isspace_bar isspace_nl)
  have f1: "?F1 \<noteq> []" "CHR ''|'' \<notin> set ?F1" "\<not> isspace (hd ?F1)" "length ?F1 \<le> 127"
    using s by auto
  have f2: "?F2 \<noteq> []" "CHR ''|'' \<notin> set ?F2" "\<not> isspace (hd ?F2)" "length ?F2 \<le> 127"
    using lab by auto
  have sc: "sscanf_row ?B = Some (?F1, ?F2)"
    using sscanf_fields[OF f1 f2, of "[]"] by simp
  have t1: "trim ?F1 = s"
    by (rule trim_padded) (use s in \<open>auto simp: isspace_space\<close>)
  have t2: "trim ?F2 = lab"
    by (rule trim_padded) (use lab in \<open>auto simp: isspace_space\<close>)
  have Bs: "?B = ''| '' @ s @ CHR '' '' # (?pad1 @ CHR ''|'' # CHR '' '' # ?F2 @ ''|'')"
    by (simp add: replicate_append_same)
  have c: "str_contains ?B T = str_contains s T"
    if "T \<noteq> []" "hd T = CHR ''L'' \<or> hd T = CHR ''T''" "CHR '' '' \<notin> set T" for T
  proof -
    have "str_contains (''| '' @ s @ CHR '' '' # (?pad1 @ CHR ''|'' # CHR '' '' # ?F2 @ ''|'')) T
          = str_contains s T"
    proof (rule str_contains_frame[OF that(1)])
      show "hd T \<notin> set ''| ''" using that(2) by auto
      show "hd T \<notin> set (CHR '' '' # (?pad1 @ CHR ''|'' # CHR '' '' # ?F2 @ ''|''))"
        using that(2) lab(6,7) by auto
      show "CHR '' '' \<notin> set T" by (rule that(3))
    qed
    then show ?thesis using Bs by simp
  qed
  have h: "\<not> (str_contains ?B ''Lexeme'' \<and> str_contains ?B ''Token'')"
    using c[of "''Lexeme''"] c[of "''Token''"] s(8) by simp
  have "parse_row (?B @ [CHR 0x0A]) = Some (conv_token s lab)"
    unfolding parse_row_def t Let_def
    using h sc t1 t2 s(2) by (simp add: conv_token_def MAX_LEXEME_def del: str_eq_iff)
  then show "parse_row (write_row s lab) = Some (conv_token s lab)" using w by simp
qed

subsection \<open>Loading a written table\<close>

definition header_row :: string where
  "header_row =
     ''| '' @ left_justify 20 ''Lexeme'' @ '' | '' @ left_justify 16 ''Token'' @ '' |''
     @ [CHR 0x0A]"

definition token_row :: "Token \<Rightarrow> string" where
  "token_row t = write_row (shown t) (tname (type t))"

definition loaded_token :: "Token \<Rightarrow> ParserToken" where
  "loaded_token t = \<lparr>kind = map_kind (tname (type t)), pt_lexeme = shown t\<rparr>"

lemma symbol_table_lines:
  "symbol_table path ts =
     concat ([''Source: '' @ path @ [CHR 0x0A], border, header_row, border]
             @ map token_row ts @ [border])"
proof -
  have "(\<lambda>t. write_row (shown t) (tname (type t))) = token_row"
    by (rule ext) (simp add: token_row_def)
  then show ?thesis
    by (simp add: symbol_table_def write_head_def write_foot_def header_row_def)
qed

lemma trim_keeps_prefix:
  assumes "A \<noteq> []" "\<not> isspace (hd A)" "\<not> isspace (last A)"
  shows "\<exists>y. trim (A @ x) = A @ y"
proof -
  have "\<exists>z. dropWhile isspace (rev x @ rev A) = z @ rev A"
  proof (cases "\<forall>c\<in>set (rev x). isspace c")
    case True
    then have "dropWhile isspace (rev x @ rev A) = dropWhile isspace (rev A)"
      by (intro dropWhile_append2) simp
    moreover have "dropWhile isspace (rev A) = rev A"
      using assms(1,3) by (cases "rev A") (auto simp: hd_rev[symmetric])
    ultimately show ?thesis by simp
  next
    case False
    then obtain c where "c \<in> set (rev x)" "\<not> isspace c" by blast
    then have "dropWhile isspace (rev x @ rev A) = dropWhile isspace (rev x) @ rev A"
      by (intro dropWhile_append1)
    then show ?thesis by blast
  qed
  then obtain z where z: "dropWhile isspace (rev x @ rev A) = z @ rev A" by blast
  have "dropWhile isspace (A @ rev z) = A @ rev z"
    using assms(1,2) by (cases A) auto
  then show ?thesis using z by (simp add: trim_def)
qed

lemma source_line:
  assumes "CHR 0x0A \<notin> set path" "CHR 0x00 \<notin> set path" "length path \<le> 500"
  shows "complete_line (''Source: '' @ path @ [CHR 0x0A])"
    and "parse_row (''Source: '' @ path @ [CHR 0x0A]) = None"
proof -
  have "complete_line ((''Source: '' @ path) @ [CHR 0x0A])"
    using assms by (intro complete_lineI) (auto simp: MAX_LINE_def)
  then show "complete_line (''Source: '' @ path @ [CHR 0x0A])" by simp
  have "\<exists>y. trim (''Source:'' @ (CHR '' '' # path @ [CHR 0x0A])) = ''Source:'' @ y"
    by (rule trim_keeps_prefix) (simp_all add: isspace_def)
  then obtain y where "trim (''Source: '' @ path @ [CHR 0x0A]) = ''Source:'' @ y" by auto
  then show "parse_row (''Source: '' @ path @ [CHR 0x0A]) = None"
    by (simp add: parse_row_def)
qed

lemma border_line: "complete_line border" "parse_row border = None"
proof -
  show "complete_line border"
    unfolding border_def by (rule complete_lineI) (simp_all add: MAX_LINE_def)
  show "parse_row border = None" by code_simp
qed

lemma header_line: "complete_line header_row" "parse_row header_row = None"
proof -
  have "header_row = (''| '' @ left_justify 20 ''Lexeme'' @ '' | '' @ left_justify 16 ''Token''
          @ '' |'') @ [CHR 0x0A]"
    by (simp add: header_row_def)
  moreover have "complete_line ((''| '' @ left_justify 20 ''Lexeme'' @ '' | ''
          @ left_justify 16 ''Token'' @ '' |'') @ [CHR 0x0A])"
    by (rule complete_lineI) (simp_all add: MAX_LINE_def left_justify_def)
  ultimately show "complete_line header_row" by simp
  show "parse_row header_row = None" by code_simp
qed

lemma eof_row: "complete_line (write_row [] ''eof'')" "parse_row (write_row [] ''eof'') = None"
proof -
  have "write_row [] ''eof'' = (''| '' @ left_justify 20 [] @ '' | '' @ left_justify 16 ''eof''
          @ '' |'') @ [CHR 0x0A]"
    by (simp add: write_row_def)
  moreover have "complete_line ((''| '' @ left_justify 20 [] @ '' | '' @ left_justify 16 ''eof''
          @ '' |'') @ [CHR 0x0A])"
    by (rule complete_lineI) (simp_all add: MAX_LINE_def left_justify_def)
  ultimately show "complete_line (write_row [] ''eof'')" by simp
  show "parse_row (write_row [] ''eof'') = None" by code_simp
qed

lemma load_symbol_table:
  assumes "CHR 0x0A \<notin> set path" "CHR 0x00 \<notin> set path" "length path \<le> 500"
    and "\<forall>t\<in>set ts. plain_lexeme (shown t)"
    and "type e = TOK_EOF" "shown e = []"
  shows "load_loop (symbol_table path (ts @ [e])) [] = take MAX_TOKENS (map loaded_token ts)"
proof -
  let ?src = "''Source: '' @ path @ [CHR 0x0A]"
  let ?head = "[?src, border, header_row, border]"
  let ?tail = "[token_row e, border]"
  have er: "token_row e = write_row [] ''eof''"
    using assms(5,6) by (simp add: token_row_def tname_def)
  have rows: "parse_row (token_row t) = Some (loaded_token t) \<and> complete_line (token_row t)"
    if "t \<in> set ts" for t
    using parse_row_write_row[OF _ tname_ok, of "shown t" "type t"] that assms(4)
    by (simp add: token_row_def loaded_token_def conv_token_def)
  have tbl: "symbol_table path (ts @ [e]) = concat (?head @ map token_row ts @ ?tail) @ []"
    by (simp add: symbol_table_lines)
  have cl: "\<forall>l\<in>set (?head @ map token_row ts @ ?tail). complete_line l"
    using source_line(1)[OF assms(1-3)] border_line(1) header_line(1) eof_row(1) er rows
    by auto
  have sk1: "foldl store_row [] ?head = []"
    by (rule foldl_store_row_skip)
       (use source_line(2)[OF assms(1-3)] border_line(2) header_line(2) in auto)
  have "list_all2 (\<lambda>l p. parse_row l = Some p) (map token_row ts) (map loaded_token ts)"
    using rows by (simp add: list_all2_map1 list_all2_map2 list_all2_same)
  then have rw: "foldl store_row [] (map token_row ts) = take MAX_TOKENS ([] @ map loaded_token ts)"
    by (intro foldl_store_row_rows) simp
  have sk2: "foldl store_row toks ?tail = toks" for toks
    by (rule foldl_store_row_skip) (use er eof_row(2) border_line(2) in auto)
  have "load_loop (symbol_table path (ts @ [e])) []
        = load_loop [] (foldl store_row [] (?head @ map token_row ts @ ?tail))"
    unfolding tbl by (rule load_loop_lines[OF cl])
  also have "\<dots> = foldl store_row [] (?head @ map token_row ts @ ?tail)"
    by (rule load_loop_Nil)
  also have "\<dots> = take MAX_TOKENS (map loaded_token ts)"
    unfolding foldl_append sk1 rw sk2 by simp
  finally show ?thesis .
qed

lemma map_kind_tname_eof: "map_kind (tname ty) = PT_EOF \<longleftrightarrow> ty = TOK_EOF"
  by (cases ty) (simp_all add: tname_def map_kind_def)

lemma append_eof_no_eof:
  assumes "\<forall>p\<in>set toks. kind p \<noteq> PT_EOF"
  shows "append_eof toks = toks @ [\<lparr>kind = PT_EOF, pt_lexeme = ''EOF''\<rparr>]"
proof (cases "toks = []")
  case True
  then show ?thesis by (simp add: append_eof_def)
next
  case False
  then have "toks ! (length toks - 1) \<in> set toks" by simp
  then show ?thesis using assms by (simp add: append_eof_def)
qed

lemma load_loop_capped:
  "length (load_loop content toks) \<le> max (length toks) MAX_TOKENS"
proof (induction content toks rule: load_loop.induct)
  case (1 content toks)
  show ?case
  proof (cases "fgets MAX_LINE content")
    case None
    then show ?thesis by (simp add: load_loop.simps[of content])
  next
    case (Some a)
    obtain ln rest where a: "a = (ln, rest)" by (cases a)
    have "length (store_row toks ln) \<le> max (length toks) MAX_TOKENS"
      by (auto simp: store_row_def split: option.splits)
    with "1.IH"[OF Some[unfolded a] refl] Some a show ?thesis
      by (simp add: load_loop.simps[of content])
  qed
qed

text \<open>
  What the loader does read back. Take a token sequence that ends with the scanner's
  \<open>eof\<close> token (displayed lexeme empty) and has fewer than \<open>MAX_TOKENS\<close> tokens before
  it, none of kind \<open>eof\<close>, each with a plain displayed lexeme. Writing the table (for a
  source path of at most 500 characters without newline) and loading it yields as many
  tokens as were written, with the parser kind of each written label and the displayed
  lexemes; the last one is the loader's own \<open>eof\<close> token, with lexeme \<open>EOF\<close>, since the
  row of the scanner's \<open>eof\<close> token is not read back.
\<close>

lemma plain_rows_round_trip:
  assumes "CHR 0x0A \<notin> set path" and "CHR 0x00 \<notin> set path" and "length path \<le> 500"
    and "\<forall>t\<in>set ts. plain_lexeme (shown t) \<and> type t \<noteq> TOK_EOF"
    and "length ts < MAX_TOKENS"
    and "type e = TOK_EOF" and "shown e = []"
  shows "fst (load_tokens_from_symbol_table (Some (symbol_table path (ts @ [e]))) st)
           = length (ts @ [e])
       \<and> g_tokens (snd (load_tokens_from_symbol_table (Some (symbol_table path (ts @ [e]))) st))
           = map (\<lambda>t. \<lparr>kind = map_kind (tname (type t)), pt_lexeme = shown t\<rparr>) ts
             @ [\<lparr>kind = PT_EOF, pt_lexeme = ''EOF''\<rparr>]"
proof -
  have "load_loop (symbol_table path (ts @ [e])) [] = take MAX_TOKENS (map loaded_token ts)"
    using assms by (intro load_symbol_table) auto
  then have l: "load_loop (symbol_table path (ts @ [e])) [] = map loaded_token ts"
    using assms(5) by simp
  have "\<forall>p\<in>set (map loaded_token ts). kind p \<noteq> PT_EOF"
    using assms(4) by (auto simp: loaded_token_def map_kind_tname_eof)
  then have a: "append_eof (map loaded_token ts)
             = map loaded_token ts @ [\<lparr>kind = PT_EOF, pt_lexeme = ''EOF''\<rparr>]"
    by (rule append_eof_no_eof)
  have "loaded_token = (\<lambda>t. \<lparr>kind = map_kind (tname (type t)), pt_lexeme = shown t\<rparr>)"
    by (rule ext) (simp add: loaded_token_def)
  then have m: "map loaded_token ts
                 = map (\<lambda>t. \<lparr>kind = map_kind (tname (type t)), pt_lexeme = shown t\<rparr>) ts"
    by simp
  have "load_tokens_from_symbol_table (Some (symbol_table path (ts @ [e]))) st
        = (length (map loaded_token ts @ [\<lparr>kind = PT_EOF, pt_lexeme = ''EOF''\<rparr>]),
           st\<lparr>g_tokens := map loaded_token ts @ [\<lparr>kind = PT_EOF, pt_lexeme = ''EOF''\<rparr>],
              g_tok_count := length (map loaded_token ts @ [\<lparr>kind = PT_EOF, pt_lexeme = ''EOF''\<rparr>])\<rparr>)"
    by (simp add: load_tokens_from_symbol_table_def Let_def l a)
  then show ?thesis
    unfolding m by simp
qed

definition decl_tokens :: "Token list" where
  "decl_tokens =
     [\<lparr>type = TOK_RESERVED_TYPE, lexeme = Some ''int'', tok_line = 1, tok_col = 1, extra = None\<rparr>,
      \<lparr>type = TOK_IDENTIFIER, lexeme = Some ''x'', tok_line = 1, tok_col = 5, extra = None\<rparr>,
      \<lparr>type = TOK_DELIM, lexeme = Some '';'', tok_line = 1, tok_col = 7, extra = Some '';''\<rparr>]"

definition eof_token :: Token where
  "eof_token = \<lparr>type = TOK_EOF, lexeme = None, tok_line = 1, tok_col = 7, extra = None\<rparr>"

lemma plain_rows_round_trip_example:
  "scan_all (init_lexer ''int x;'') = decl_tokens @ [eof_token]
   \<and> fst (load_tokens_from_symbol_table
            (Some (symbol_table ''a.ksh'' (decl_tokens @ [eof_token]))) globals0) = 4
   \<and> g_tokens (snd (load_tokens_from_symbol_table
            (Some (symbol_table ''a.ksh'' (decl_tokens @ [eof_token]))) globals0))
       = [\<lparr>kind = PT_TYPE, pt_lexeme = ''int''\<rparr>, \<lparr>kind = PT_IDENTIFIER, pt_lexeme = ''x''\<rparr>,
          \<lparr>kind = PT_SYMBOL, pt_lexeme = '';''\<rparr>, \<lparr>kind = PT_EOF, pt_lexeme = ''EOF''\<rparr>]"
proof -
  have s: "scan_all (init_lexer ''int x;'') = decl_tokens @ [eof_token]"
    by code_simp
  have p: "\<forall>t\<in>set decl_tokens. plain_lexeme (shown t) \<and> type t \<noteq> TOK_EOF"
    by code_simp
  have h: "CHR 0x0A \<notin> set ''a.ksh''" "CHR 0x00 \<notin> set ''a.ksh''" "length ''a.ksh'' \<le> 500"
    "length decl_tokens < MAX_TOKENS" "type eof_token = TOK_EOF" "shown eof_token = []"
    by (simp_all add: decl_tokens_def MAX_TOKENS_def eof_token_def shown_def)
  note t = plain_rows_round_trip[OF h(1) h(2) h(3) p h(4) h(5) h(6), of globals0]
  have m: "map (\<lambda>t. \<lparr>kind = map_kind (tname (type t)), pt_lexeme = shown t\<rparr>) decl_tokens
           = [\<lparr>kind = PT_TYPE, pt_lexeme = ''int''\<rparr>, \<lparr>kind = PT_IDENTIFIER, pt_lexeme = ''x''\<rparr>,
              \<lparr>kind = PT_SYMBOL, pt_lexeme = '';''\<rparr>]"
    by (simp add: decl_tokens_def tname_def map_kind_def shown_def)
  have n: "length (decl_tokens @ [eof_token]) = 4" by (simp add: decl_tokens_def)
  show ?thesis using s t m n by simp
qed

text \<open>
  Claim C7 fails on the code. The scanner returns the operator \<open>||\<close> as a token and
  \<open>parse_simple_expr\<close> tests the current lexeme against \<open>||\<close>, but the loader cannot
  read the row of this token: the conversion \<open>%127[^|]\<close> of its \<open>sscanf\<close> pattern
  takes the first \<open>|\<close> of the lexeme for the end of the field, the field is empty, and
  the row is skipped like a line of the frame. The four tokens of \<open>a || b\<close> are written
  as four rows and come back as the three tokens \<open>a\<close>, \<open>b\<close> and \<open>EOF\<close>, while the
  row of \<open>&&\<close>, written in the same way, is read back.
\<close>

theorem loader_drops_or_operator:
  "map shown (scan_all (init_lexer ''a || b'')) = [''a'', ''||'', ''b'', '''']
   \<and> map (\<lambda>t. type t) (scan_all (init_lexer ''a || b''))
       = [TOK_IDENTIFIER, TOK_OP_LOGIC, TOK_IDENTIFIER, TOK_EOF]
   \<and> parse_row (write_row ''||'' (tname TOK_OP_LOGIC)) = None
   \<and> parse_row (write_row ''&&'' (tname TOK_OP_LOGIC))
       = Some \<lparr>kind = PT_OPERATOR, pt_lexeme = ''&&''\<rparr>
   \<and> fst (load_tokens_from_symbol_table
         (Some (symbol_table ''a.ksh'' (scan_all (init_lexer ''a || b'')))) globals0) = 3
   \<and> map pt_lexeme (g_tokens (snd (load_tokens_from_symbol_table
         (Some (symbol_table ''a.ksh'' (scan_all (init_lexer ''a || b'')))) globals0)))
       = [''a'', ''b'', ''EOF'']"
  by code_simp

definition x_token :: Token where
  "x_token = \<lparr>type = TOK_IDENTIFIER, lexeme = Some ''x'', tok_line = 1, tok_col = 1, extra = None\<rparr>"

text \<open>
  Claim C2 fails on the code. The table that the lexer writes for a source of
  \<open>MAX_TOKENS\<close> identifiers has \<open>MAX_TOKENS\<close> identifier rows and the row of the \<open>eof\<close>
  token, which the loader does not read back. The loop fills all \<open>MAX_TOKENS\<close> slots, and
  the final \<open>eof\<close> token is then stored, without a capacity check, in slot \<open>MAX_TOKENS\<close>,
  one past the end of \<open>g_tokens\<close>: the count returned is \<open>MAX_TOKENS + 1\<close>.
\<close>

theorem loader_eof_overflow:
  "fst (load_tokens_from_symbol_table
          (Some (symbol_table ''big.ksh'' (replicate MAX_TOKENS x_token @ [eof_token]))) globals0)
     = MAX_TOKENS + 1
   \<and> g_tokens (snd (load_tokens_from_symbol_table
          (Some (symbol_table ''big.ksh'' (replicate MAX_TOKENS x_token @ [eof_token]))) globals0))
       ! MAX_TOKENS = \<lparr>kind = PT_EOF, pt_lexeme = ''EOF''\<rparr>"
proof -
  have p: "plain_lexeme (shown x_token)" by code_simp
  have "load_loop (symbol_table ''big.ksh'' (replicate MAX_TOKENS x_token @ [eof_token])) []
        = take MAX_TOKENS (map loaded_token (replicate MAX_TOKENS x_token))"
    by (rule load_symbol_table) (use p in \<open>simp_all add: eof_token_def shown_def\<close>)
  then have l: "load_loop (symbol_table ''big.ksh'' (replicate MAX_TOKENS x_token @ [eof_token])) []
        = replicate MAX_TOKENS (loaded_token x_token)"
    by simp
  have "kind (loaded_token x_token) \<noteq> PT_EOF"
    by (simp add: loaded_token_def x_token_def tname_def map_kind_def)
  then have "append_eof (replicate MAX_TOKENS (loaded_token x_token))
             = replicate MAX_TOKENS (loaded_token x_token) @ [\<lparr>kind = PT_EOF, pt_lexeme = ''EOF''\<rparr>]"
    by (intro append_eof_no_eof) simp
  then show ?thesis
    using l by (simp add: load_tokens_from_symbol_table_def Let_def nth_append)
qed

subsection \<open>Comment tokens and their rows\<close>



end
